theory Spec2Isabelle
  imports Main "HOL-Library.Word" "HOL-Library.Monad_Syntax"
begin

section \<open>The data model of avl-map.h\<close>

text \<open>
  Nodes live in the free store and are linked by raw pointers, so the model has an explicit
  store: a partial map from addresses to node records. A null pointer is \<open>None\<close>.
  Every function that dereferences a pointer returns an \<open>option\<close>: \<open>None\<close> stands for
  a run that does not return normally (a null or dangling dereference, or a walk that never
  ends on a cyclic store).
\<close>

type_synonym addr = nat

text \<open>\<open>class Node\<close>: key, value, height, balance, parent, left, right.\<close>

record ('k, 'v) node =
  key :: 'k
  val :: 'v
  height :: int
  balance :: int
  parent :: "addr option"
  left :: "addr option"
  right :: "addr option"

type_synonym ('k, 'v) store = "addr \<Rightarrow> ('k, 'v) node option"

text \<open>
  The data members of \<open>AVLmap\<close>: \<open>mRoot\<close> and the \<open>unsigned int size_\<close> (32 bits,
  wrapping).
\<close>

record avlmap =
  mRoot :: "addr option"
  size_m :: "32 word"

text \<open>
  Ghost history, never read by the program: which ancestors \<open>BalanceTree\<close> popped and
  which rotations were entered, oldest first.
\<close>

datatype event = Examine addr | RotL addr | RotR addr

text \<open>
  A map object together with the free store it works on. \<open>new Node\<close> takes the address
  \<open>brk\<close> and advances it, so a fresh node never coincides with a live or a freed one;
  \<open>delete\<close> removes the address from the store.
\<close>

record ('k, 'v) state = avlmap +
  heap :: "('k, 'v) store"
  brk :: addr
  log :: "event list"

definition AVLmap :: "('k, 'v) state" where
  "AVLmap = \<lparr>mRoot = None, size_m = 0, heap = Map.empty, brk = 0, log = []\<rparr>"

section \<open>Lookup and insertion\<close>

partial_function (option) FindNode ::
  "('k::linorder, 'v) store \<Rightarrow> addr option \<Rightarrow> 'k \<Rightarrow> addr option option" where
  "FindNode h tree k =
     (case tree of
        None \<Rightarrow> Some None
      | Some a \<Rightarrow>
          (case h a of
             None \<Rightarrow> None
           | Some n \<Rightarrow>
               if key n = k then Some tree
               else if key n < k then FindNode h (right n) k
               else FindNode h (left n) k))"

declare FindNode.simps [code]

text \<open>
  \<open>InsertItem\<close> returns the pointer it was given (or the new node), the stack of visited
  nodes (head of the list = top of the stack) and the new state. The caller stores the
  returned pointer into the child link it descended through.
\<close>

partial_function (option) InsertItem ::
  "addr option \<Rightarrow> addr option \<Rightarrow> 'k::linorder \<Rightarrow> 'v \<Rightarrow> addr list \<Rightarrow> ('k, 'v) state
     \<Rightarrow> (addr option \<times> addr list \<times> ('k, 'v) state) option" where
  "InsertItem tree parentNode k v nodes s =
     (case tree of
        None \<Rightarrow>
          (case (case parentNode of
                   None \<Rightarrow> Some 0
                 | Some p \<Rightarrow> (case heap s p of None \<Rightarrow> None | Some pn \<Rightarrow> Some (height pn + 1))) of
             None \<Rightarrow> None
           | Some hgt \<Rightarrow>
               let a = brk s;
                   s1 = s\<lparr>heap := (heap s)(a \<mapsto> \<lparr>key = k, val = v, height = hgt, balance = 0,
                                                 parent = parentNode, left = None, right = None\<rparr>),
                          brk := Suc a,
                          size_m := size_m s + 1\<rparr>;
                   s2 = (if mRoot s1 = None then s1\<lparr>mRoot := Some a\<rparr> else s1)
               in Some (Some a, nodes, s2))
      | Some a \<Rightarrow>
          (case heap s a of
             None \<Rightarrow> None
           | Some n \<Rightarrow>
               if k < key n then
                 Option.bind (InsertItem (left n) tree k v (a # nodes) s)
                   (\<lambda>(r, nodes', s').
                      case heap s' a of
                        None \<Rightarrow> None
                      | Some n' \<Rightarrow> Some (tree, nodes', s'\<lparr>heap := (heap s')(a \<mapsto> n'\<lparr>left := r\<rparr>)\<rparr>))
               else if k > key n then
                 Option.bind (InsertItem (right n) tree k v (a # nodes) s)
                   (\<lambda>(r, nodes', s').
                      case heap s' a of
                        None \<Rightarrow> None
                      | Some n' \<Rightarrow> Some (tree, nodes', s'\<lparr>heap := (heap s')(a \<mapsto> n'\<lparr>right := r\<rparr>)\<rparr>))
               else Some (tree, nodes, s)))"

declare InsertItem.simps [code]

section \<open>Heights and rotations\<close>

partial_function (option) GetSubtreeHeight ::
  "('k, 'v) store \<Rightarrow> addr option \<Rightarrow> int option" where
  "GetSubtreeHeight h p =
     (case p of
        None \<Rightarrow> Some (- 1)
      | Some a \<Rightarrow>
          (case h a of
             None \<Rightarrow> None
           | Some n \<Rightarrow>
               Option.bind (GetSubtreeHeight h (left n)) (\<lambda>hl.
               Option.bind (GetSubtreeHeight h (right n)) (\<lambda>hr.
               Some (1 + max hl hr)))))"

declare GetSubtreeHeight.simps [code]

definition GetSubtreeBalance :: "('k, 'v) store \<Rightarrow> addr option \<Rightarrow> int option" where
  "GetSubtreeBalance h p =
     (case p of
        None \<Rightarrow> Some (- 1)
      | Some a \<Rightarrow>
          (case h a of
             None \<Rightarrow> None
           | Some n \<Rightarrow>
               Option.bind (GetSubtreeHeight h (left n)) (\<lambda>hl.
               Option.bind (GetSubtreeHeight h (right n)) (\<lambda>hr.
               Some (hl - hr)))))"

text \<open>
  \<open>UpdateSubtreeHeights\<close>: pre-order walk that stores \<open>parent->height + 1\<close>
  (or 0 without a parent) in each node.
\<close>

partial_function (option) UpdateSubtreeHeights ::
  "('k, 'v) store \<Rightarrow> addr option \<Rightarrow> ('k, 'v) store option" where
  "UpdateSubtreeHeights h subtree =
     (case subtree of
        None \<Rightarrow> Some h
      | Some a \<Rightarrow>
          (case h a of
             None \<Rightarrow> None
           | Some n \<Rightarrow>
               (case (case parent n of
                        None \<Rightarrow> Some 0
                      | Some p \<Rightarrow> (case h p of None \<Rightarrow> None | Some pn \<Rightarrow> Some (height pn + 1))) of
                  None \<Rightarrow> None
                | Some d \<Rightarrow>
                    Option.bind (UpdateSubtreeHeights (h(a \<mapsto> n\<lparr>height := d\<rparr>)) (left n)) (\<lambda>h1.
                      case h1 a of
                        None \<Rightarrow> None
                      | Some n1 \<Rightarrow> UpdateSubtreeHeights h1 (right n1)))))"

declare UpdateSubtreeHeights.simps [code]


text \<open>Writes through a pointer; writing through a dangling pointer does not return.\<close>

definition set_left :: "addr \<Rightarrow> addr option \<Rightarrow> ('k, 'v) store \<Rightarrow> ('k, 'v) store option" where
  "set_left a x h = (case h a of None \<Rightarrow> None | Some n \<Rightarrow> Some (h(a \<mapsto> n\<lparr>left := x\<rparr>)))"

definition set_right :: "addr \<Rightarrow> addr option \<Rightarrow> ('k, 'v) store \<Rightarrow> ('k, 'v) store option" where
  "set_right a x h = (case h a of None \<Rightarrow> None | Some n \<Rightarrow> Some (h(a \<mapsto> n\<lparr>right := x\<rparr>)))"

definition set_parent :: "addr \<Rightarrow> addr option \<Rightarrow> ('k, 'v) store \<Rightarrow> ('k, 'v) store option" where
  "set_parent a x h = (case h a of None \<Rightarrow> None | Some n \<Rightarrow> Some (h(a \<mapsto> n\<lparr>parent := x\<rparr>)))"

definition RotateRootRight :: "('k, 'v) state \<Rightarrow> ('k, 'v) state option" where
  "RotateRootRight s = do {
     temp \<leftarrow> mRoot s;
     tn \<leftarrow> heap s temp;
     newRoot \<leftarrow> left tn;
     h1 \<leftarrow> set_parent newRoot None (heap s);
     h2 \<leftarrow> set_parent temp (Some newRoot) h1;
     nn \<leftarrow> h2 newRoot;
     h3 \<leftarrow> set_left temp (right nn) h2;
     tn3 \<leftarrow> h3 temp;
     h4 \<leftarrow> (case left tn3 of None \<Rightarrow> Some h3 | Some c \<Rightarrow> set_parent c (Some temp) h3);
     h5 \<leftarrow> set_right newRoot (Some temp) h4;
     h6 \<leftarrow> UpdateSubtreeHeights h5 (Some newRoot);
     Some (s\<lparr>mRoot := Some newRoot, heap := h6\<rparr>)
   }"

definition RotateRootLeft :: "('k, 'v) state \<Rightarrow> ('k, 'v) state option" where
  "RotateRootLeft s = do {
     temp \<leftarrow> mRoot s;
     tn \<leftarrow> heap s temp;
     newRoot \<leftarrow> right tn;
     h1 \<leftarrow> set_parent newRoot None (heap s);
     h2 \<leftarrow> set_parent temp (Some newRoot) h1;
     nn \<leftarrow> h2 newRoot;
     h3 \<leftarrow> set_right temp (left nn) h2;
     tn3 \<leftarrow> h3 temp;
     h4 \<leftarrow> (case right tn3 of None \<Rightarrow> Some h3 | Some c \<Rightarrow> set_parent c (Some temp) h3);
     h5 \<leftarrow> set_left newRoot (Some temp) h4;
     h6 \<leftarrow> UpdateSubtreeHeights h5 (Some newRoot);
     Some (s\<lparr>mRoot := Some newRoot, heap := h6\<rparr>)
   }"

text \<open>
  \<open>RotateRight(Node*& node)\<close>. The reference parameter ends up holding the promoted
  node; both call sites pass a local variable that is not read again, so the model returns
  the state only.
\<close>

definition RotateRight :: "addr \<Rightarrow> ('k, 'v) state \<Rightarrow> ('k, 'v) state option" where
  "RotateRight node s0 =
     (let s = s0\<lparr>log := log s0 @ [RotR node]\<rparr> in
      if Some node = mRoot s then RotateRootRight s
      else do {
        n \<leftarrow> heap s node;
        nodeParent \<leftarrow> parent n;
        pn \<leftarrow> heap s nodeParent;
        h1 \<leftarrow> (if Some node = left pn then set_left nodeParent (left n) (heap s)
               else set_right nodeParent (left n) (heap s));
        n1 \<leftarrow> h1 node;
        promoted \<leftarrow> left n1;
        h2 \<leftarrow> set_parent promoted (Some nodeParent) h1;
        h3 \<leftarrow> set_parent node (Some promoted) h2;
        cn \<leftarrow> h3 promoted;
        h4 \<leftarrow> set_left node (right cn) h3;
        tn \<leftarrow> h4 node;
        h5 \<leftarrow> (case left tn of None \<Rightarrow> Some h4 | Some c \<Rightarrow> set_parent c (Some node) h4);
        h6 \<leftarrow> set_right promoted (Some node) h5;
        h7 \<leftarrow> UpdateSubtreeHeights h6 (Some promoted);
        Some (s\<lparr>heap := h7\<rparr>)
      })"

definition RotateLeft :: "addr \<Rightarrow> ('k, 'v) state \<Rightarrow> ('k, 'v) state option" where
  "RotateLeft node s0 =
     (let s = s0\<lparr>log := log s0 @ [RotL node]\<rparr> in
      if Some node = mRoot s then RotateRootLeft s
      else do {
        n \<leftarrow> heap s node;
        nodeParent \<leftarrow> parent n;
        pn \<leftarrow> heap s nodeParent;
        h1 \<leftarrow> (if Some node = left pn then set_left nodeParent (right n) (heap s)
               else set_right nodeParent (right n) (heap s));
        n1 \<leftarrow> h1 node;
        promoted \<leftarrow> right n1;
        h2 \<leftarrow> set_parent promoted (Some nodeParent) h1;
        h3 \<leftarrow> set_parent node (Some promoted) h2;
        cn \<leftarrow> h3 promoted;
        h4 \<leftarrow> set_right node (left cn) h3;
        tn \<leftarrow> h4 node;
        h5 \<leftarrow> (case right tn of None \<Rightarrow> Some h4 | Some c \<Rightarrow> set_parent c (Some node) h4);
        h6 \<leftarrow> set_left promoted (Some node) h5;
        h7 \<leftarrow> UpdateSubtreeHeights h6 (Some promoted);
        Some (s\<lparr>heap := h7\<rparr>)
      })"

text \<open>
  \<open>BalanceTree\<close>: the loop over the stack. \<open>leftSubtree\<close>, \<open>rightSubtree\<close> and
  \<open>balance\<close> are read once, before any rotation, as in the source.
\<close>

fun BalanceTree :: "addr list \<Rightarrow> bool \<Rightarrow> ('k, 'v) state \<Rightarrow> ('k, 'v) state option" where
  "BalanceTree [] inserting s = Some s"
| "BalanceTree (y # nodes) inserting s0 =
     (let s = s0\<lparr>log := log s0 @ [Examine y]\<rparr> in
      case heap s y of
        None \<Rightarrow> None
      | Some yn \<Rightarrow>
          let leftSubtree = left yn; rightSubtree = right yn in
          Option.bind (GetSubtreeBalance (heap s) (Some y)) (\<lambda>bal.
          Option.bind (GetSubtreeHeight (heap s) leftSubtree) (\<lambda>leftSubtreeHeight.
          Option.bind (GetSubtreeHeight (heap s) rightSubtree) (\<lambda>rightSubtreeHeight.
            if \<bar>leftSubtreeHeight - rightSubtreeHeight\<bar> \<le> 1 then BalanceTree nodes inserting s
            else
              Option.bind
                (if bal > 1 then
                   do {
                     l \<leftarrow> leftSubtree;
                     ln \<leftarrow> heap s l;
                     hll \<leftarrow> GetSubtreeHeight (heap s) (left ln);
                     hlr \<leftarrow> GetSubtreeHeight (heap s) (right ln);
                     if hll \<ge> hlr then RotateRight y s
                     else do { s' \<leftarrow> RotateLeft l s; RotateRight y s' }
                   }
                 else Some s) (\<lambda>s1.
              Option.bind
                (if bal < - 1 then
                   do {
                     r \<leftarrow> rightSubtree;
                     rn \<leftarrow> heap s1 r;
                     hrr \<leftarrow> GetSubtreeHeight (heap s1) (right rn);
                     hrl \<leftarrow> GetSubtreeHeight (heap s1) (left rn);
                     if hrr \<ge> hrl then RotateLeft y s1
                     else do { s' \<leftarrow> RotateRight r s1; RotateLeft y s' }
                   }
                 else Some s1) (\<lambda>s2.
              if inserting then Some s2 else BalanceTree nodes inserting s2))))))"

text \<open>
  \<open>operator[]\<close>. The model returns the address of the node whose \<open>value\<close> the returned
  reference designates. \<open>dflt\<close> stands for \<open>VALUE_TYPE{}\<close>.
\<close>

definition operator_subscript ::
  "'v \<Rightarrow> 'k::linorder \<Rightarrow> ('k, 'v) state \<Rightarrow> (addr \<times> ('k, 'v) state) option" where
  "operator_subscript dflt k s = do {
     node \<leftarrow> FindNode (heap s) (mRoot s) k;
     case node of
       Some a \<Rightarrow> Some (a, s)
     | None \<Rightarrow> do {
         (r, nodes, s1) \<leftarrow> InsertItem (mRoot s) (mRoot s) k dflt [] s;
         s2 \<leftarrow> BalanceTree nodes True s1;
         ins \<leftarrow> FindNode (heap s2) (mRoot s2) k;
         a \<leftarrow> ins;
         Some (a, s2)
       }
   }"

section \<open>In-order navigation\<close>

partial_function (option) Node_first :: "('k, 'v) store \<Rightarrow> addr \<Rightarrow> addr option" where
  "Node_first h this =
     (case h this of
        None \<Rightarrow> None
      | Some n \<Rightarrow> (case left n of None \<Rightarrow> Some this | Some l \<Rightarrow> Node_first h l))"

declare Node_first.simps [code]

partial_function (option) Node_last :: "('k, 'v) store \<Rightarrow> addr \<Rightarrow> addr option" where
  "Node_last h this =
     (case h this of
        None \<Rightarrow> None
      | Some n \<Rightarrow> (case right n of None \<Rightarrow> Some this | Some r \<Rightarrow> Node_last h r))"

declare Node_last.simps [code]

text \<open>The \<open>while\<close> loop of \<open>Node::increment\<close>.\<close>

partial_function (option) increment_loop ::
  "('k, 'v) store \<Rightarrow> addr \<Rightarrow> addr option \<Rightarrow> addr option option" where
  "increment_loop h walker parentWalker =
     (case parentWalker of
        None \<Rightarrow> Some None
      | Some p \<Rightarrow>
          (case h p of
             None \<Rightarrow> None
           | Some pn \<Rightarrow>
               if right pn = Some walker then increment_loop h p (parent pn)
               else Some parentWalker))"

declare increment_loop.simps [code]

definition Node_increment :: "('k, 'v) store \<Rightarrow> addr \<Rightarrow> addr option option" where
  "Node_increment h this =
     (case h this of
        None \<Rightarrow> None
      | Some n \<Rightarrow>
          (case right n of
             Some r \<Rightarrow> map_option Some (Node_first h r)
           | None \<Rightarrow>
               if parent n = None then Some None
               else increment_loop h this (parent n)))"

text \<open>The \<open>while\<close> loop of \<open>Node::decrement\<close>.\<close>

partial_function (option) decrement_loop ::
  "('k, 'v) store \<Rightarrow> addr \<Rightarrow> addr option \<Rightarrow> addr option option" where
  "decrement_loop h walker parentWalker =
     (case parentWalker of
        None \<Rightarrow> Some None
      | Some p \<Rightarrow>
          (case h p of
             None \<Rightarrow> None
           | Some pn \<Rightarrow>
               if left pn = Some walker then decrement_loop h p (parent pn)
               else Some parentWalker))"

declare decrement_loop.simps [code]

definition Node_decrement :: "('k, 'v) store \<Rightarrow> addr \<Rightarrow> addr option option" where
  "Node_decrement h this =
     (case h this of
        None \<Rightarrow> None
      | Some n \<Rightarrow>
          (case left n of
             Some l \<Rightarrow> map_option Some (Node_last h l)
           | None \<Rightarrow>
               (case parent n of
                  None \<Rightarrow> decrement_loop h this (parent n)
                | Some p \<Rightarrow>
                    (case h p of
                       None \<Rightarrow> None
                     | Some pn \<Rightarrow>
                         if right pn = Some this then Some (parent n)
                         else decrement_loop h this (parent n)))))"

text \<open>
  Iterators hold a node pointer; \<open>end_it\<close> holds the null pointer.
\<close>

definition AVLmap_end :: "addr option" where
  "AVLmap_end = None"

definition AVLmap_begin :: "('k, 'v) state \<Rightarrow> addr option option" where
  "AVLmap_begin s =
     (case mRoot s of
        Some r \<Rightarrow> map_option Some (Node_first (heap s) r)
      | None \<Rightarrow> Some AVLmap_end)"

definition AVLmap_find :: "'k::linorder \<Rightarrow> ('k, 'v) state \<Rightarrow> addr option option" where
  "AVLmap_find k s = FindNode (heap s) (mRoot s) k"

text \<open>
  The traversals a caller writes: \<open>for (it = begin(); it != end(); ++it)\<close>, collecting the
  keys, and the backward walk \<open>b = mRoot->last(); while (b) { ...; b = b->decrement(); }\<close>
  that \<open>print\<close> performs.
\<close>

partial_function (option) forward_from :: "('k, 'v) store \<Rightarrow> addr option \<Rightarrow> 'k list option" where
  "forward_from h it =
     (case it of
        None \<Rightarrow> Some []
      | Some a \<Rightarrow>
          (case h a of
             None \<Rightarrow> None
           | Some n \<Rightarrow>
               Option.bind (Node_increment h a) (\<lambda>nx.
               Option.bind (forward_from h nx) (\<lambda>ks. Some (key n # ks)))))"

declare forward_from.simps [code]

partial_function (option) backward_from :: "('k, 'v) store \<Rightarrow> addr option \<Rightarrow> 'k list option" where
  "backward_from h b =
     (case b of
        None \<Rightarrow> Some []
      | Some a \<Rightarrow>
          (case h a of
             None \<Rightarrow> None
           | Some n \<Rightarrow>
               Option.bind (Node_decrement h a) (\<lambda>nx.
               Option.bind (backward_from h nx) (\<lambda>ks. Some (key n # ks)))))"

declare backward_from.simps [code]

definition keys_forward :: "('k, 'v) state \<Rightarrow> 'k list option" where
  "keys_forward s = Option.bind (AVLmap_begin s) (forward_from (heap s))"

definition keys_backward :: "('k, 'v) state \<Rightarrow> 'k list option" where
  "keys_backward s =
     (case mRoot s of
        None \<Rightarrow> Some []
      | Some r \<Rightarrow> Option.bind (Node_last (heap s) r) (\<lambda>b. backward_from (heap s) (Some b)))"

section \<open>Deletion\<close>

text \<open>\<open>FreeNode\<close>: \<open>delete node; --size_\<close>.\<close>

definition FreeNode :: "addr \<Rightarrow> ('k, 'v) state \<Rightarrow> ('k, 'v) state option" where
  "FreeNode node s =
     (case heap s node of
        None \<Rightarrow> None
      | Some _ \<Rightarrow> Some (s\<lparr>heap := (heap s)(node := None), size_m := size_m s - 1\<rparr>))"

definition DeleteLeafNode :: "addr \<Rightarrow> ('k, 'v) state \<Rightarrow> ('k, 'v) state option" where
  "DeleteLeafNode node s =
     Option.bind
       (if Some node = mRoot s then Some (s\<lparr>mRoot := None\<rparr>)
        else do {
          n \<leftarrow> heap s node;
          p \<leftarrow> parent n;
          pn \<leftarrow> heap s p;
          h1 \<leftarrow> (if Some node = left pn then set_left p None (heap s)
                 else set_right p None (heap s));
          Some (s\<lparr>heap := h1\<rparr>)
        })
       (FreeNode node)"

partial_function (option) DeleteItem ::
  "addr option \<Rightarrow> 'k::linorder \<Rightarrow> ('k, 'v) state \<Rightarrow> ('k, 'v) state option" where
  "DeleteItem tree k s =
     (case tree of
        None \<Rightarrow> Some s
      | Some a \<Rightarrow>
          (case heap s a of
             None \<Rightarrow> None
           | Some n \<Rightarrow>
               if k < key n then DeleteItem (left n) k s
               else if k > key n then DeleteItem (right n) k s
               else if left n = None \<and> right n = None then DeleteLeafNode a s
               else if left n \<noteq> None \<and> right n \<noteq> None then
                 (case Node_decrement (heap s) a of
                    None \<Rightarrow> None
                  | Some None \<Rightarrow> None
                  | Some (Some pred) \<Rightarrow>
                      (case heap s pred of
                         None \<Rightarrow> None
                       | Some pn \<Rightarrow>
                           let h1 = (heap s)(a \<mapsto> n\<lparr>val := val pn\<rparr>) in
                           (case h1 pred of
                              None \<Rightarrow> None
                            | Some pn1 \<Rightarrow>
                                (case h1 a of
                                   None \<Rightarrow> None
                                 | Some n1 \<Rightarrow>
                                     let h2 = h1(a \<mapsto> n1\<lparr>key := key pn1\<rparr>) in
                                     (case h2 a of
                                        None \<Rightarrow> None
                                      | Some n2 \<Rightarrow>
                                          DeleteItem (left n2) (key n2) (s\<lparr>heap := h2\<rparr>))))))
               else
                 (let child = (if left n \<noteq> None then left n else right n) in
                  case (if tree \<noteq> mRoot s then
                          do {
                            p \<leftarrow> parent n;
                            pn \<leftarrow> heap s p;
                            h1 \<leftarrow> (if tree = left pn then set_left p child (heap s)
                                   else set_right p child (heap s));
                            n1 \<leftarrow> h1 a;
                            c \<leftarrow> child;
                            h2 \<leftarrow> set_parent c (parent n1) h1;
                            Some (s\<lparr>heap := h2\<rparr>)
                          }
                        else
                          do {
                            c \<leftarrow> child;
                            h1 \<leftarrow> set_parent c None (heap s);
                            Some (s\<lparr>mRoot := child, heap := h1\<rparr>)
                          }) of
                    None \<Rightarrow> None
                  | Some s1 \<Rightarrow> FreeNode a s1)))"

declare DeleteItem.simps [code]

text \<open>
  \<open>GetVisitedNodes\<close>: the loop pushes the parent first and the root last, so the root ends
  up on top of the stack (at the head of the list).
\<close>

partial_function (option) GetVisitedNodes_loop ::
  "('k, 'v) store \<Rightarrow> addr option \<Rightarrow> addr list \<Rightarrow> addr list option" where
  "GetVisitedNodes_loop h parentWalker stack =
     (case parentWalker of
        None \<Rightarrow> Some stack
      | Some p \<Rightarrow>
          (case h p of
             None \<Rightarrow> None
           | Some pn \<Rightarrow> GetVisitedNodes_loop h (parent pn) (p # stack)))"

declare GetVisitedNodes_loop.simps [code]

definition GetVisitedNodes :: "('k, 'v) store \<Rightarrow> addr \<Rightarrow> addr list \<Rightarrow> addr list option" where
  "GetVisitedNodes h node stack =
     (case h node of
        None \<Rightarrow> None
      | Some n \<Rightarrow>
          if parent n = None then Some stack
          else GetVisitedNodes_loop h (parent n) stack)"

definition AVLmap_erase :: "addr option \<Rightarrow> ('k::linorder, 'v) state \<Rightarrow> ('k, 'v) state option" where
  "AVLmap_erase it s =
     (if it = AVLmap_end then Some s
      else do {
        a \<leftarrow> it;
        nodes \<leftarrow> GetVisitedNodes (heap s) a [];
        n \<leftarrow> heap s a;
        s1 \<leftarrow> DeleteItem it (key n) s;
        BalanceTree nodes False s1
      })"

section \<open>Move construction and move assignment\<close>

text \<open>
  Both take the free store along to show what they do to it. The results are the new store,
  the destination object and the source object.
\<close>

definition move_construct ::
  "('k, 'v) store \<Rightarrow> avlmap \<Rightarrow> ('k, 'v) store \<times> avlmap \<times> avlmap" where
  "move_construct h rhs =
     (let this = \<lparr>mRoot = mRoot rhs, size_m = size_m rhs\<rparr>;
          rhs1 = rhs\<lparr>size_m := 0\<rparr>;
          rhs2 = rhs1\<lparr>mRoot := None\<rparr>
      in (h, this, rhs2))"

definition move_assign ::
  "('k, 'v) store \<Rightarrow> avlmap \<Rightarrow> avlmap \<Rightarrow> ('k, 'v) store \<times> avlmap \<times> avlmap" where
  "move_assign h this rhs =
     (let (this1, rhs1) = (this\<lparr>mRoot := mRoot rhs\<rparr>, rhs\<lparr>mRoot := mRoot this\<rparr>);
          (this2, rhs2) = (this1\<lparr>size_m := size_m rhs1\<rparr>, rhs1\<lparr>size_m := size_m this1\<rparr>)
      in (h, this2, rhs2))"

section \<open>Callers\<close>

text \<open>A caller that inserts a list of keys one after the other through \<open>operator[]\<close>.\<close>

fun insert_keys :: "'v \<Rightarrow> 'k::linorder list \<Rightarrow> ('k, 'v) state \<Rightarrow> ('k, 'v) state option" where
  "insert_keys dflt [] s = Some s"
| "insert_keys dflt (k # ks) s =
     Option.bind (operator_subscript dflt k s) (\<lambda>(a, s'). insert_keys dflt ks s')"

text \<open>A caller that erases a key: \<open>m.erase(m.find(k))\<close>.\<close>

definition erase_key :: "'k::linorder \<Rightarrow> ('k, 'v) state \<Rightarrow> ('k, 'v) state option" where
  "erase_key k s = Option.bind (AVLmap_find k s) (\<lambda>it. AVLmap_erase it s)"

text \<open>Maps used in the scenarios below; the history is cleared after building them.\<close>

definition built :: "int list \<Rightarrow> (int, int) state" where
  "built ks = (the (insert_keys 0 ks AVLmap))\<lparr>log := []\<rparr>"

definition two_singletons :: "(int, int) store" where
  "two_singletons =
     [0 \<mapsto> \<lparr>key = 1, val = 0, height = 0, balance = 0, parent = None, left = None, right = None\<rparr>,
      1 \<mapsto> \<lparr>key = 2, val = 0, height = 0, balance = 0, parent = None, left = None, right = None\<rparr>]"

section \<open>The tree a store represents\<close>

text \<open>
  The proofs relate the store to a tree value that lists, for every node reachable from a
  root pointer, its address, key, value and stored height field.
\<close>

datatype ('k, 'v) tree = Leaf | Node "('k, 'v) tree" addr 'k 'v int "('k, 'v) tree"

fun root_of :: "('k, 'v) tree \<Rightarrow> addr option" where
  "root_of Leaf = None"
| "root_of (Node l a k v d r) = Some a"

fun addrs :: "('k, 'v) tree \<Rightarrow> addr list" where
  "addrs Leaf = []"
| "addrs (Node l a k v d r) = addrs l @ a # addrs r"

fun keys :: "('k, 'v) tree \<Rightarrow> 'k list" where
  "keys Leaf = []"
| "keys (Node l a k v d r) = keys l @ k # keys r"

fun items :: "('k, 'v) tree \<Rightarrow> (addr \<times> 'k \<times> 'v) list" where
  "items Leaf = []"
| "items (Node l a k v d r) = items l @ (a, k, v) # items r"

text \<open>True subtree height, with the height of the absent tree being -1.\<close>

fun ht :: "('k, 'v) tree \<Rightarrow> int" where
  "ht Leaf = - 1"
| "ht (Node l a k v d r) = 1 + max (ht l) (ht r)"

text \<open>
  \<open>rep h p par t\<close>: in the store \<open>h\<close> the pointer \<open>p\<close> leads to the tree \<open>t\<close>, and the
  parent pointer of its root is \<open>par\<close>.
\<close>

fun rep :: "('k, 'v) store \<Rightarrow> addr option \<Rightarrow> addr option \<Rightarrow> ('k, 'v) tree \<Rightarrow> bool" where
  "rep h p par Leaf = (p = None)"
| "rep h p par (Node l a k v d r) =
     (p = Some a \<and>
      (\<exists>n. h a = Some n \<and>
           key n = k \<and> val n = v \<and> height n = d \<and> parent n = par \<and>
           rep h (left n) (Some a) l \<and> rep h (right n) (Some a) r))"

definition bst :: "('k::linorder, 'v) tree \<Rightarrow> bool" where
  "bst t = sorted_wrt (<) (keys t)"

text \<open>
  \<open>repr s t\<close>: the map object of state \<open>s\<close> owns exactly the tree \<open>t\<close>: no node is shared
  between two places of the tree, every allocated address lies below the allocation
  pointer, and \<open>size_\<close> counts the nodes (modulo \<open>2^32\<close>).
\<close>

definition repr :: "('k, 'v) state \<Rightarrow> ('k, 'v) tree \<Rightarrow> bool" where
  "repr s t =
     (rep (heap s) (mRoot s) None t \<and> distinct (addrs t) \<and>
      (\<forall>a. heap s a \<noteq> None \<longrightarrow> a < brk s) \<and>
      size_m s = of_nat (length (addrs t)))"

text \<open>The well-formed states: a search tree without sharing.\<close>

definition well_formed :: "('k::linorder, 'v) state \<Rightarrow> bool" where
  "well_formed s = (\<exists>t. repr s t \<and> bst t)"

fun find_abs :: "'k::linorder \<Rightarrow> ('k, 'v) tree \<Rightarrow> addr option" where
  "find_abs x Leaf = None"
| "find_abs x (Node l a k v d r) =
     (if k = x then Some a else if k < x then find_abs x r else find_abs x l)"

text \<open>
  What \<open>InsertItem\<close> does to the tree, before any rebalancing: \<open>ins0 a x v d t\<close> hangs the
  new node (address \<open>a\<close>, key \<open>x\<close>, value \<open>v\<close>) where the search for \<open>x\<close> leaves the tree;
  \<open>d\<close> is the height field a new node gets at the root position of \<open>t\<close>. \<open>path x t\<close> lists
  the nodes visited, root first.
\<close>

fun ins0 :: "addr \<Rightarrow> 'k::linorder \<Rightarrow> 'v \<Rightarrow> int \<Rightarrow> ('k, 'v) tree \<Rightarrow> ('k, 'v) tree" where
  "ins0 a' x v' d' Leaf = Node Leaf a' x v' d' Leaf"
| "ins0 a' x v' d' (Node l a k v d r) =
     (if x < k then Node (ins0 a' x v' (d + 1) l) a k v d r
      else if x > k then Node l a k v d (ins0 a' x v' (d + 1) r)
      else Node l a k v d r)"

fun path :: "'k::linorder \<Rightarrow> ('k, 'v) tree \<Rightarrow> addr list" where
  "path x Leaf = []"
| "path x (Node l a k v d r) =
     (if x < k then a # path x l else if x > k then a # path x r else [])"

text \<open>What \<open>UpdateSubtreeHeights\<close> does to the height fields of a subtree.\<close>

fun set_depths :: "int \<Rightarrow> ('k, 'v) tree \<Rightarrow> ('k, 'v) tree" where
  "set_depths d' Leaf = Leaf"
| "set_depths d' (Node l a k v d r) = Node (set_depths (d' + 1) l) a k v d' (set_depths (d' + 1) r)"

text \<open>
  Navigation in the tree by node address: the subtree rooted at \<open>y\<close>, the tree with that
  subtree replaced, the parent pointer of \<open>y\<close> (\<open>par\<close> for the root), and the height value
  \<open>UpdateSubtreeHeights\<close> computes for \<open>y\<close> from its parent's current field (\<open>d'\<close> for the
  root).
\<close>

fun sub_at :: "addr \<Rightarrow> ('k, 'v) tree \<Rightarrow> ('k, 'v) tree" where
  "sub_at y Leaf = Leaf"
| "sub_at y (Node l a k v d r) =
     (if a = y then Node l a k v d r
      else if y \<in> set (addrs l) then sub_at y l else sub_at y r)"

fun repl :: "addr \<Rightarrow> ('k, 'v) tree \<Rightarrow> ('k, 'v) tree \<Rightarrow> ('k, 'v) tree" where
  "repl y u Leaf = Leaf"
| "repl y u (Node l a k v d r) =
     (if a = y then u
      else if y \<in> set (addrs l) then Node (repl y u l) a k v d r
      else Node l a k v d (repl y u r))"

fun par_of :: "addr \<Rightarrow> addr option \<Rightarrow> ('k, 'v) tree \<Rightarrow> addr option" where
  "par_of y par Leaf = par"
| "par_of y par (Node l a k v d r) =
     (if a = y then par
      else if y \<in> set (addrs l) then par_of y (Some a) l else par_of y (Some a) r)"

fun pdepth :: "addr \<Rightarrow> int \<Rightarrow> ('k, 'v) tree \<Rightarrow> int" where
  "pdepth y d' Leaf = d'"
| "pdepth y d' (Node l a k v d r) =
     (if a = y then d'
      else if y \<in> set (addrs l) then pdepth y (d + 1) l else pdepth y (d + 1) r)"

text \<open>The rotations, at the root of a subtree and at a node given by its address.\<close>

fun rotR_root :: "int \<Rightarrow> ('k, 'v) tree \<Rightarrow> ('k, 'v) tree" where
  "rotR_root d' (Node (Node ll b kb vb db lr) a k v d r) =
     set_depths d' (Node ll b kb vb db (Node lr a k v d r))"
| "rotR_root d' t = t"

fun rotL_root :: "int \<Rightarrow> ('k, 'v) tree \<Rightarrow> ('k, 'v) tree" where
  "rotL_root d' (Node l a k v d (Node rl b kb vb db rr)) =
     set_depths d' (Node (Node l a k v d rl) b kb vb db rr)"
| "rotL_root d' t = t"

definition rotR_at :: "addr \<Rightarrow> ('k, 'v) tree \<Rightarrow> ('k, 'v) tree" where
  "rotR_at y t = repl y (rotR_root (pdepth y 0 t) (sub_at y t)) t"

definition rotL_at :: "addr \<Rightarrow> ('k, 'v) tree \<Rightarrow> ('k, 'v) tree" where
  "rotL_at y t = repl y (rotL_root (pdepth y 0 t) (sub_at y t)) t"

text \<open>
  What \<open>BalanceTree\<close> does to the tree, and the history it leaves. \<open>bal_of y t\<close> is the
  balance factor of the node at \<open>y\<close>.
\<close>

definition bal_of :: "addr \<Rightarrow> ('k, 'v) tree \<Rightarrow> int" where
  "bal_of y t = (case sub_at y t of Leaf \<Rightarrow> - 1 | Node l a k v d r \<Rightarrow> ht l - ht r)"

definition fix_left_heavy :: "addr \<Rightarrow> ('k, 'v) tree \<Rightarrow> ('k, 'v) tree" where
  "fix_left_heavy y t =
     (case sub_at y t of
        Node (Node ll b kb vb db lr) a k v d r \<Rightarrow>
          if ht ll \<ge> ht lr then rotR_at y t else rotR_at y (rotL_at b t)
      | _ \<Rightarrow> t)"

definition fix_right_heavy :: "addr \<Rightarrow> ('k, 'v) tree \<Rightarrow> ('k, 'v) tree" where
  "fix_right_heavy y t =
     (case sub_at y t of
        Node l a k v d (Node rl b kb vb db rr) \<Rightarrow>
          if ht rr \<ge> ht rl then rotL_at y t else rotL_at y (rotR_at b t)
      | _ \<Rightarrow> t)"

definition events_left_heavy :: "addr \<Rightarrow> ('k, 'v) tree \<Rightarrow> event list" where
  "events_left_heavy y t =
     (case sub_at y t of
        Node (Node ll b kb vb db lr) a k v d r \<Rightarrow>
          if ht ll \<ge> ht lr then [RotR y] else [RotL b, RotR y]
      | _ \<Rightarrow> [])"

definition events_right_heavy :: "addr \<Rightarrow> ('k, 'v) tree \<Rightarrow> event list" where
  "events_right_heavy y t =
     (case sub_at y t of
        Node l a k v d (Node rl b kb vb db rr) \<Rightarrow>
          if ht rr \<ge> ht rl then [RotL y] else [RotR b, RotL y]
      | _ \<Rightarrow> [])"

definition rebalance_at :: "addr \<Rightarrow> ('k, 'v) tree \<Rightarrow> ('k, 'v) tree" where
  "rebalance_at y t =
     (if bal_of y t > 1 then fix_left_heavy y t
      else if bal_of y t < - 1 then fix_right_heavy y t
      else t)"

definition rebalance_events :: "addr \<Rightarrow> ('k, 'v) tree \<Rightarrow> event list" where
  "rebalance_events y t =
     (if bal_of y t > 1 then events_left_heavy y t
      else if bal_of y t < - 1 then events_right_heavy y t
      else [])"

fun bal_abs :: "addr list \<Rightarrow> bool \<Rightarrow> ('k, 'v) tree \<Rightarrow> ('k, 'v) tree" where
  "bal_abs [] inserting t = t"
| "bal_abs (y # nodes) inserting t =
     (if \<bar>bal_of y t\<bar> \<le> 1 then bal_abs nodes inserting t
      else if inserting then rebalance_at y t
      else bal_abs nodes inserting (rebalance_at y t))"

fun bal_events :: "addr list \<Rightarrow> bool \<Rightarrow> ('k, 'v) tree \<Rightarrow> event list" where
  "bal_events [] inserting t = []"
| "bal_events (y # nodes) inserting t =
     Examine y #
     (if \<bar>bal_of y t\<bar> \<le> 1 then bal_events nodes inserting t
      else if inserting then rebalance_events y t
      else rebalance_events y t @ bal_events nodes inserting (rebalance_at y t))"

text \<open>The tree after \<open>operator[]\<close> on an absent key.\<close>

definition insert_abs :: "addr \<Rightarrow> 'k::linorder \<Rightarrow> 'v \<Rightarrow> ('k, 'v) tree \<Rightarrow> ('k, 'v) tree" where
  "insert_abs a' x v' t = bal_abs (rev (path x t)) True (ins0 a' x v' 0 t)"

text \<open>The element that follows \<open>x\<close> in a list.\<close>

fun next_in :: "'a list \<Rightarrow> 'a \<Rightarrow> 'a option" where
  "next_in [] x = None"
| "next_in [y] x = None"
| "next_in (y # z # zs) x = (if y = x then Some z else next_in (z # zs) x)"

text \<open>The addresses in descending key order.\<close>

fun rev_addrs :: "('k, 'v) tree \<Rightarrow> addr list" where
  "rev_addrs Leaf = []"
| "rev_addrs (Node l a k v d r) = rev_addrs r @ a # rev_addrs l"

text \<open>
  What \<open>erase\<close> does to the tree before rebalancing. \<open>anc x t\<close> lists the proper
  ancestors of the node at \<open>x\<close>, root first; \<open>del_last t\<close> removes the rightmost node of
  \<open>t\<close>, putting its left subtree in its place.
\<close>

fun anc :: "addr \<Rightarrow> ('k, 'v) tree \<Rightarrow> addr list" where
  "anc x Leaf = []"
| "anc x (Node l a k v d r) =
     (if a = x then [] else if x \<in> set (addrs l) then a # anc x l else a # anc x r)"

fun del_last :: "('k, 'v) tree \<Rightarrow> ('k, 'v) tree" where
  "del_last Leaf = Leaf"
| "del_last (Node l a k v d r) = (if r = Leaf then l else Node l a k v d (del_last r))"

definition erase_abs :: "addr \<Rightarrow> ('k, 'v) tree \<Rightarrow> ('k, 'v) tree" where
  "erase_abs x t =
     (case sub_at x t of
        Leaf \<Rightarrow> t
      | Node l a k v d r \<Rightarrow>
          if l \<noteq> Leaf \<and> r \<noteq> Leaf then
            (case last (items l) of (ap, kp, vp) \<Rightarrow> repl x (Node (del_last l) a kp vp d r) t)
          else repl x (if l \<noteq> Leaf then l else r) t)"


text \<open>
  Reading the history: \<open>is_rotation e\<close> holds for the two rotation events, \<open>examined es\<close>
  lists the nodes \<open>BalanceTree\<close> popped, oldest first.
\<close>

fun is_rotation :: "event \<Rightarrow> bool" where
  "is_rotation (Examine a) = False"
| "is_rotation (RotL a) = True"
| "is_rotation (RotR a) = True"

fun examined :: "event list \<Rightarrow> addr list" where
  "examined [] = []"
| "examined (Examine a # es) = a # examined es"
| "examined (RotL a # es) = examined es"
| "examined (RotR a # es) = examined es"

section \<open>Basic facts about the representation\<close>

lemma set_addrs_items: "addrs t = map fst (items t)"
  by (induction t) auto

lemma keys_items: "keys t = map (fst \<circ> snd) (items t)"
  by (induction t) auto

lemma rep_cong:
  "(\<And>b. b \<in> set (addrs t) \<Longrightarrow> h' b = h b) \<Longrightarrow> rep h' p par t = rep h p par t"
proof (induction t arbitrary: p par)
  case Leaf
  show ?case by simp
next
  case (Node l a k v d r)
  have a: "h' a = h a" using Node.prems by simp
  have l: "\<And>q q'. rep h' q q' l = rep h q q' l" using Node by simp
  have r: "\<And>q q'. rep h' q q' r = rep h q q' r" using Node by simp
  show ?case by (simp add: a l r)
qed

lemma rep_root: "rep h p par t \<Longrightarrow> p = root_of t"
  by (cases t) auto

lemma rep_dom: "rep h p par t \<Longrightarrow> b \<in> set (addrs t) \<Longrightarrow> h b \<noteq> None"
  by (induction t arbitrary: p par) (auto split: option.splits)

lemma GetSubtreeHeight_rep: "rep h p par t \<Longrightarrow> GetSubtreeHeight h p = Some (ht t)"
proof (induction t arbitrary: p par)
  case Leaf
  then show ?case by (simp add: GetSubtreeHeight.simps)
next
  case (Node l a k v d r)
  then obtain n where n: "h a = Some n" "p = Some a"
    "rep h (left n) (Some a) l" "rep h (right n) (Some a) r"
    by (auto split: option.splits)
  show ?case
    by (subst GetSubtreeHeight.simps) (simp add: n Node.IH(1)[OF n(3)] Node.IH(2)[OF n(4)])
qed

lemma FindNode_rep: "rep h p par t \<Longrightarrow> FindNode h p x = Some (find_abs x t)"
proof (induction t arbitrary: p par)
  case Leaf
  then show ?case by (simp add: FindNode.simps)
next
  case (Node l a k v d r)
  then obtain n where n: "h a = Some n" "p = Some a" "key n = k"
    "rep h (left n) (Some a) l" "rep h (right n) (Some a) r"
    by (auto split: option.splits)
  show ?case
    by (subst FindNode.simps) (simp add: n Node.IH(1)[OF n(4)] Node.IH(2)[OF n(5)])
qed

lemma find_abs_absent: "x \<notin> set (keys t) \<Longrightarrow> find_abs x t = None"
  by (induction t) auto

lemma find_abs_present:
  "bst t \<Longrightarrow> x \<in> set (keys t) \<Longrightarrow> \<exists>a v. find_abs x t = Some a \<and> (a, x, v) \<in> set (items t)"
proof (induction t)
  case Leaf
  then show ?case by simp
next
  case (Node l a k v d r)
  have bl: "bst l" and br: "bst r" using Node.prems(1) by (auto simp: bst_def sorted_wrt_append)
  have lt: "\<forall>y\<in>set (keys l). y < k" and gt: "\<forall>y\<in>set (keys r). k < y"
    using Node.prems(1) by (auto simp: bst_def sorted_wrt_append)
  show ?case
  proof (cases "k = x")
    case True
    then show ?thesis by auto
  next
    case False
    show ?thesis
    proof (cases "k < x")
      case True
      then have "x \<in> set (keys r)" using Node.prems(2) False lt by auto
      from Node.IH(2)[OF br this] True False show ?thesis by auto
    next
      case False
      with \<open>k \<noteq> x\<close> have "x < k" by simp
      then have "x \<in> set (keys l)" using Node.prems(2) gt by auto
      from Node.IH(1)[OF bl this] False \<open>k \<noteq> x\<close> show ?thesis by auto
    qed
  qed
qed


section \<open>Insertion into the store\<close>

lemma addrs_ins0: "x \<notin> set (keys t) \<Longrightarrow> set (addrs (ins0 a' x v' d' t)) = insert a' (set (addrs t))"
  by (induction t arbitrary: d') auto

lemma InsertItem_rep:
  assumes "rep (heap s) p par t"
    and "distinct (addrs t)"
    and "x \<notin> set (keys t)"
    and "\<forall>b. heap s b \<noteq> None \<longrightarrow> b < brk s"
    and "t = Leaf \<longrightarrow> pp = par"
    and "case par of None \<Rightarrow> d' = 0 | Some q \<Rightarrow> (\<exists>qn. heap s q = Some qn \<and> d' = height qn + 1)"
    and "par \<noteq> None \<longrightarrow> mRoot s \<noteq> None"
    and "par = None \<longrightarrow> mRoot s = p"
  shows "\<exists>s'. InsertItem p pp x v' nodes s =
               Some (root_of (ins0 (brk s) x v' d' t), rev (path x t) @ nodes, s')
           \<and> rep (heap s') (root_of (ins0 (brk s) x v' d' t)) par (ins0 (brk s) x v' d' t)
           \<and> (\<forall>b. b \<notin> set (addrs t) \<and> b \<noteq> brk s \<longrightarrow> heap s' b = heap s b)
           \<and> (\<forall>b. heap s' b \<noteq> None \<longrightarrow> b < brk s')
           \<and> mRoot s' = (if mRoot s = None then Some (brk s) else mRoot s)
           \<and> brk s' = Suc (brk s) \<and> size_m s' = size_m s + 1 \<and> log s' = log s"
  using assms
proof (induction t arbitrary: p par pp nodes s d')
  case Leaf
  have p: "p = None" using Leaf.prems(1) by simp
  have pp: "pp = par" using Leaf.prems(5) by simp
  have fresh: "heap s (brk s) = None" using Leaf.prems(4) by (metis less_irrefl)
  show ?case
  proof (cases par)
    case None
    then have m: "mRoot s = None" using Leaf.prems(8) p by simp
    have d: "d' = 0" using Leaf.prems(6) None by simp
    show ?thesis
      apply (subst InsertItem.simps)
      using Leaf.prems(4) by (auto simp: p pp None m d Let_def less_Suc_eq)
  next
    case (Some q)
    then obtain qn where qn: "heap s q = Some qn" "d' = height qn + 1"
      using Leaf.prems(6) by auto
    have m: "mRoot s \<noteq> None" using Leaf.prems(7) Some by simp
    have qb: "q \<noteq> brk s" using qn fresh by auto
    show ?thesis
      apply (subst InsertItem.simps)
      using Leaf.prems(4) m by (auto simp: p pp Some qn Let_def less_Suc_eq)
  qed
next
  case (Node l a k v d r)
  obtain n where n: "heap s a = Some n" "p = Some a" "key n = k" "val n = v" "height n = d"
    "parent n = par" "rep (heap s) (left n) (Some a) l" "rep (heap s) (right n) (Some a) r"
    using Node.prems(1) by auto
  have dist: "distinct (addrs l)" "distinct (addrs r)" "a \<notin> set (addrs l)" "a \<notin> set (addrs r)"
    "set (addrs l) \<inter> set (addrs r) = {}"
    using Node.prems(2) by auto
  have xk: "x \<noteq> k" "x \<notin> set (keys l)" "x \<notin> set (keys r)" using Node.prems(3) by auto
  have ab: "a < brk s" using Node.prems(4) n(1) by auto
  have m: "mRoot s \<noteq> None" using Node.prems(7,8) n(2) by (cases par) auto
  have fresh: "\<And>b u q q'. rep (heap s) q q' u \<Longrightarrow> brk s \<notin> set (addrs u)"
    using Node.prems(4) rep_dom by (metis less_irrefl)
  show ?case
  proof (cases "x < k")
    case True
    have pre6: "case Some a of None \<Rightarrow> d + 1 = 0 | Some q \<Rightarrow> (\<exists>qn. heap s q = Some qn \<and> d + 1 = height qn + 1)"
      using n by simp
    from Node.IH(1)[OF n(7) dist(1) xk(2) Node.prems(4) _ pre6, where pp = "Some a" and nodes = "a # nodes"] m
    obtain s1 where s1: "InsertItem (left n) (Some a) x v' (a # nodes) s =
               Some (root_of (ins0 (brk s) x v' (d + 1) l), rev (path x l) @ a # nodes, s1)"
      "rep (heap s1) (root_of (ins0 (brk s) x v' (d + 1) l)) (Some a) (ins0 (brk s) x v' (d + 1) l)"
      "\<forall>b. b \<notin> set (addrs l) \<and> b \<noteq> brk s \<longrightarrow> heap s1 b = heap s b"
      "\<forall>b. heap s1 b \<noteq> None \<longrightarrow> b < brk s1"
      "mRoot s1 = mRoot s" "brk s1 = Suc (brk s)" "size_m s1 = size_m s + 1" "log s1 = log s"
      by (cases "left n") auto
    let ?l' = "ins0 (brk s) x v' (d + 1) l"
    let ?h' = "(heap s1)(a \<mapsto> n\<lparr>left := root_of ?l'\<rparr>)"
    have a1: "heap s1 a = Some n" using s1(3) dist(3) ab n(1) by auto
    have al': "a \<notin> set (addrs ?l')" using addrs_ins0[OF xk(2)] dist(3) ab by auto
    have rl: "rep ?h' (root_of ?l') (Some a) ?l'"
      using s1(2) al' by (subst rep_cong[where h = "heap s1"]) auto
    have rr: "rep ?h' (right n) (Some a) r"
      using n(8) dist(4,5) fresh[OF n(8)] s1(3) by (subst rep_cong[where h = "heap s"]) auto
    show ?thesis
      apply (subst InsertItem.simps)
      using True n s1 a1 rl rr m Node.prems(4)
      by (auto simp: less_Suc_eq)
  next
    case False
    then have gt: "x > k" using xk(1) by simp
    have pre6: "case Some a of None \<Rightarrow> d + 1 = 0 | Some q \<Rightarrow> (\<exists>qn. heap s q = Some qn \<and> d + 1 = height qn + 1)"
      using n by simp
    from Node.IH(2)[OF n(8) dist(2) xk(3) Node.prems(4) _ pre6, where pp = "Some a" and nodes = "a # nodes"] m
    obtain s1 where s1: "InsertItem (right n) (Some a) x v' (a # nodes) s =
               Some (root_of (ins0 (brk s) x v' (d + 1) r), rev (path x r) @ a # nodes, s1)"
      "rep (heap s1) (root_of (ins0 (brk s) x v' (d + 1) r)) (Some a) (ins0 (brk s) x v' (d + 1) r)"
      "\<forall>b. b \<notin> set (addrs r) \<and> b \<noteq> brk s \<longrightarrow> heap s1 b = heap s b"
      "\<forall>b. heap s1 b \<noteq> None \<longrightarrow> b < brk s1"
      "mRoot s1 = mRoot s" "brk s1 = Suc (brk s)" "size_m s1 = size_m s + 1" "log s1 = log s"
      by (cases "right n") auto
    let ?r' = "ins0 (brk s) x v' (d + 1) r"
    let ?h' = "(heap s1)(a \<mapsto> n\<lparr>right := root_of ?r'\<rparr>)"
    have a1: "heap s1 a = Some n" using s1(3) dist(4) ab n(1) by auto
    have ar': "a \<notin> set (addrs ?r')" using addrs_ins0[OF xk(3)] dist(4) ab by auto
    have rr: "rep ?h' (root_of ?r') (Some a) ?r'"
      using s1(2) ar' by (subst rep_cong[where h = "heap s1"]) auto
    have rl: "rep ?h' (left n) (Some a) l"
      using n(7) dist(3,5) fresh[OF n(7)] s1(3) by (subst rep_cong[where h = "heap s"]) auto
    show ?thesis
      apply (subst InsertItem.simps)
      using False gt n s1 a1 rl rr m Node.prems(4)
      by (auto simp: less_Suc_eq)
  qed
qed


section \<open>Height fields\<close>

lemma items_set_depths [simp]: "items (set_depths d t) = items t"
  by (induction t arbitrary: d) auto

lemma addrs_set_depths [simp]: "addrs (set_depths d t) = addrs t"
  by (induction t arbitrary: d) auto

lemma keys_set_depths [simp]: "keys (set_depths d t) = keys t"
  by (induction t arbitrary: d) auto

lemma ht_set_depths [simp]: "ht (set_depths d t) = ht t"
  by (induction t arbitrary: d) auto

lemma root_of_set_depths [simp]: "root_of (set_depths d t) = root_of t"
  by (cases t) auto

lemma UpdateSubtreeHeights_rep:
  assumes "rep h p par t"
    and "distinct (addrs t)"
    and "case par of None \<Rightarrow> d' = 0 | Some q \<Rightarrow> q \<notin> set (addrs t) \<and> (\<exists>qn. h q = Some qn \<and> d' = height qn + 1)"
  shows "\<exists>h'. UpdateSubtreeHeights h p = Some h' \<and> rep h' p par (set_depths d' t)
           \<and> (\<forall>b. b \<notin> set (addrs t) \<longrightarrow> h' b = h b)"
  using assms
proof (induction t arbitrary: h p par d')
  case Leaf
  then show ?case by (subst UpdateSubtreeHeights.simps) simp
next
  case (Node l a k v d r)
  obtain n where n: "h a = Some n" "p = Some a" "key n = k" "val n = v" "height n = d"
    "parent n = par" "rep h (left n) (Some a) l" "rep h (right n) (Some a) r"
    using Node.prems(1) by auto
  have dist: "distinct (addrs l)" "distinct (addrs r)" "a \<notin> set (addrs l)" "a \<notin> set (addrs r)"
    "set (addrs l) \<inter> set (addrs r) = {}"
    using Node.prems(2) by auto
  have dcalc: "(case par of None \<Rightarrow> Some 0
                 | Some q \<Rightarrow> (case h q of None \<Rightarrow> None | Some pn \<Rightarrow> Some (height pn + 1))) = Some d'"
    using Node.prems(3) by (cases par) auto
  let ?h0 = "h(a \<mapsto> n\<lparr>height := d'\<rparr>)"
  have r0l: "rep ?h0 (left n) (Some a) l"
    using n(7) dist(3) by (subst rep_cong[where h = h]) auto
  have pre3: "case Some a of None \<Rightarrow> d' + 1 = 0
              | Some q \<Rightarrow> q \<notin> set (addrs l) \<and> (\<exists>qn. ?h0 q = Some qn \<and> d' + 1 = height qn + 1)"
    using dist(3) by simp
  from Node.IH(1)[OF r0l dist(1) pre3]
  obtain h1 where h1: "UpdateSubtreeHeights ?h0 (left n) = Some h1"
    "rep h1 (left n) (Some a) (set_depths (d' + 1) l)"
    "\<forall>b. b \<notin> set (addrs l) \<longrightarrow> h1 b = ?h0 b"
    by blast
  have h1a: "h1 a = Some (n\<lparr>height := d'\<rparr>)" using h1(3) dist(3) by simp
  have r1r: "rep h1 (right n) (Some a) r"
    using n(8) dist(4,5) h1(3) by (subst rep_cong[where h = h]) auto
  have pre3': "case Some a of None \<Rightarrow> d' + 1 = 0
              | Some q \<Rightarrow> q \<notin> set (addrs r) \<and> (\<exists>qn. h1 q = Some qn \<and> d' + 1 = height qn + 1)"
    using dist(4) h1a by simp
  from Node.IH(2)[OF r1r dist(2) pre3']
  obtain h2 where h2: "UpdateSubtreeHeights h1 (right n) = Some h2"
    "rep h2 (right n) (Some a) (set_depths (d' + 1) r)"
    "\<forall>b. b \<notin> set (addrs r) \<longrightarrow> h2 b = h1 b"
    by blast
  have h2a: "h2 a = Some (n\<lparr>height := d'\<rparr>)" using h2(3) h1a dist(4) by simp
  have r2l: "rep h2 (left n) (Some a) (set_depths (d' + 1) l)"
    using h1(2) dist(5) h2(3) by (subst rep_cong[where h = h1]) auto
  have frame: "\<forall>b. b \<notin> set (addrs (Node l a k v d r)) \<longrightarrow> h2 b = h b"
    using h2(3) h1(3) by auto
  have res: "UpdateSubtreeHeights h p = Some h2"
    by (subst UpdateSubtreeHeights.simps) (simp add: n dcalc h1 h1a h2)
  have "rep h2 p par (set_depths d' (Node l a k v d r))"
    using n h2a r2l h2(2) by simp
  with res frame show ?case by blast
qed


section \<open>Subtrees by address\<close>

lemma addrs_sub_at: "set (addrs (sub_at y t)) \<subseteq> set (addrs t)"
  by (induction t) auto

lemma sub_at_root: "y \<in> set (addrs t) \<Longrightarrow> root_of (sub_at y t) = Some y"
  by (induction t) auto

lemma sub_at_absent: "y \<notin> set (addrs t) \<Longrightarrow> sub_at y t = Leaf"
  by (induction t) auto

lemma distinct_sub_at: "distinct (addrs t) \<Longrightarrow> distinct (addrs (sub_at y t))"
  by (induction t) auto

lemma par_of_inside:
  "y \<in> set (addrs t) \<Longrightarrow> root_of t \<noteq> Some y \<Longrightarrow> \<exists>q. par_of y par t = Some q \<and> q \<in> set (addrs t)"
proof (induction t arbitrary: par)
  case Leaf
  then show ?case by simp
next
  case (Node l a k v d r)
  have ay: "a \<noteq> y" using Node.prems(2) by simp
  show ?case
  proof (cases "y \<in> set (addrs l)")
    case True
    show ?thesis
    proof (cases "root_of l = Some y")
      case True
      then obtain l1 k1 v1 d1 r1 where "l = Node l1 y k1 v1 d1 r1" by (cases l) auto
      then show ?thesis using ay by simp
    next
      case False
      from Node.IH(1)[OF True False, of "Some a"] True ay show ?thesis by auto
    qed
  next
    case False
    then have yr: "y \<in> set (addrs r)" using Node.prems(1) ay by auto
    show ?thesis
    proof (cases "root_of r = Some y")
      case True
      then obtain l1 k1 v1 d1 r1 where "r = Node l1 y k1 v1 d1 r1" by (cases r) auto
      then show ?thesis using ay False by simp
    next
      case F: False
      from Node.IH(2)[OF yr F, of "Some a"] False ay show ?thesis by auto
    qed
  qed
qed

text \<open>Where a node sits: its own subtree, its parent's record and the link that leads to it.\<close>

lemma rep_context:
  assumes "rep h p par t" and "distinct (addrs t)" and "y \<in> set (addrs t)"
  shows "rep h (Some y) (par_of y par t) (sub_at y t)
         \<and> (p \<noteq> Some y \<longrightarrow>
              (\<exists>q qn. par_of y par t = Some q \<and> q \<in> set (addrs t) \<and> q \<notin> set (addrs (sub_at y t))
                 \<and> h q = Some qn \<and> height qn + 1 = pdepth y d' t
                 \<and> (left qn = Some y \<or> right qn = Some y)))"
  using assms
proof (induction t arbitrary: p par d')
  case Leaf
  then show ?case by simp
next
  case (Node l a k v d r)
  obtain n where n: "h a = Some n" "p = Some a" "key n = k" "val n = v" "height n = d"
    "parent n = par" "rep h (left n) (Some a) l" "rep h (right n) (Some a) r"
    using Node.prems(1) by auto
  have dist: "distinct (addrs l)" "distinct (addrs r)" "a \<notin> set (addrs l)" "a \<notin> set (addrs r)"
    "set (addrs l) \<inter> set (addrs r) = {}"
    using Node.prems(2) by auto
  show ?case
  proof (cases "a = y")
    case True
    then show ?thesis using Node.prems(1) n by simp
  next
    case ay: False
    show ?thesis
    proof (cases "y \<in> set (addrs l)")
      case True
      have sub: "set (addrs (sub_at y l)) \<subseteq> set (addrs l)" by (rule addrs_sub_at)
      from Node.IH(1)[OF n(7) dist(1) True, of "d + 1"]
      have ih: "rep h (Some y) (par_of y (Some a) l) (sub_at y l)"
        "left n \<noteq> Some y \<longrightarrow>
              (\<exists>q qn. par_of y (Some a) l = Some q \<and> q \<in> set (addrs l) \<and> q \<notin> set (addrs (sub_at y l))
                 \<and> h q = Some qn \<and> height qn + 1 = pdepth y (d + 1) l
                 \<and> (left qn = Some y \<or> right qn = Some y))"
        by auto
      show ?thesis
      proof (cases "left n = Some y")
        case T: True
        then have "root_of l = Some y" using rep_root[OF n(7)] by simp
        then obtain l1 k1 v1 d1 r1 where l: "l = Node l1 y k1 v1 d1 r1" by (cases l) auto
        show ?thesis using ay True ih(1) n T dist(3) sub by (auto simp: l)
      next
        case False
        with ih(2) ay True ih(1) n show ?thesis by auto
      qed
    next
      case False
      then have yr: "y \<in> set (addrs r)" using Node.prems(3) ay by auto
      have sub: "set (addrs (sub_at y r)) \<subseteq> set (addrs r)" by (rule addrs_sub_at)
      from Node.IH(2)[OF n(8) dist(2) yr, of "d + 1"]
      have ih: "rep h (Some y) (par_of y (Some a) r) (sub_at y r)"
        "right n \<noteq> Some y \<longrightarrow>
              (\<exists>q qn. par_of y (Some a) r = Some q \<and> q \<in> set (addrs r) \<and> q \<notin> set (addrs (sub_at y r))
                 \<and> h q = Some qn \<and> height qn + 1 = pdepth y (d + 1) r
                 \<and> (left qn = Some y \<or> right qn = Some y))"
        by auto
      show ?thesis
      proof (cases "right n = Some y")
        case T: True
        then have "root_of r = Some y" using rep_root[OF n(8)] by simp
        then obtain l1 k1 v1 d1 r1 where r: "r = Node l1 y k1 v1 d1 r1" by (cases r) auto
        show ?thesis using ay False ih(1) n T dist(4) sub by (auto simp: r)
      next
        case F: False
        with ih(2) ay False ih(1) n show ?thesis by auto
      qed
    qed
  qed
qed

text \<open>Replacing the subtree below a link, in the store and in the tree.\<close>

lemma rep_repl:
  assumes "rep h p par t" and "distinct (addrs t)" and "y \<in> set (addrs t)" and "p \<noteq> Some y"
    and "par_of y par t = Some q" and "h q = Some qn"
    and "h' q = Some (if left qn = Some y then qn\<lparr>left := c\<rparr> else qn\<lparr>right := c\<rparr>)"
    and "rep h' c (Some q) u"
    and "set (addrs u) \<subseteq> set (addrs (sub_at y t))"
    and "\<forall>b. b \<notin> set (addrs (sub_at y t)) \<and> b \<noteq> q \<longrightarrow> h' b = h b"
  shows "rep h' p par (repl y u t)"
  using assms
proof (induction t arbitrary: p par)
  case Leaf
  then show ?case by simp
next
  case (Node l a k v d r)
  obtain n where n: "h a = Some n" "p = Some a" "key n = k" "val n = v" "height n = d"
    "parent n = par" "rep h (left n) (Some a) l" "rep h (right n) (Some a) r"
    using Node.prems(1) by auto
  have dist: "distinct (addrs l)" "distinct (addrs r)" "a \<notin> set (addrs l)" "a \<notin> set (addrs r)"
    "set (addrs l) \<inter> set (addrs r) = {}"
    using Node.prems(2) by auto
  have ay: "a \<noteq> y" using Node.prems(4) n(2) by simp
  show ?case
  proof (cases "y \<in> set (addrs l)")
    case True
    have sub: "set (addrs (sub_at y l)) \<subseteq> set (addrs l)" by (rule addrs_sub_at)
    have pq: "par_of y (Some a) l = Some q" using Node.prems(5) ay True by simp
    have u: "set (addrs u) \<subseteq> set (addrs (sub_at y l))" using Node.prems(9) ay True by simp
    have fr: "\<forall>b. b \<notin> set (addrs (sub_at y l)) \<and> b \<noteq> q \<longrightarrow> h' b = h b"
      using Node.prems(10) ay True by simp
    show ?thesis
    proof (cases "left n = Some y")
      case T: True
      then have "root_of l = Some y" using rep_root[OF n(7)] by simp
      then obtain l1 k1 v1 d1 r1 where l: "l = Node l1 y k1 v1 d1 r1" by (cases l) auto
      have qa: "q = a" using pq by (simp add: l)
      have qn: "qn = n" using Node.prems(6) n(1) qa by simp
      have rr: "rep h' (right n) (Some a) r"
        using n(8) dist(4,5) fr sub qa by (subst rep_cong[where h = h]) auto
      show ?thesis
        using ay True Node.prems(7,8) qa qn T n rr by (simp add: l)
    next
      case False
      then have nr: "root_of l \<noteq> Some y" using rep_root[OF n(7)] by simp
      obtain q' where q': "par_of y (Some a) l = Some q'" "q' \<in> set (addrs l)"
        using par_of_inside[OF True nr] by blast
      have ql: "q \<in> set (addrs l)" using q' pq by simp
      have ih: "rep h' (left n) (Some a) (repl y u l)"
        using Node.IH(1)[OF n(7) dist(1) True False pq Node.prems(6,7,8) u fr] .
      have h'a: "h' a = h a" using fr dist(3) sub ql by auto
      have rr: "rep h' (right n) (Some a) r"
        using n(8) dist(4,5) fr sub ql by (subst rep_cong[where h = h]) auto
      show ?thesis using ay True ih h'a n rr by simp
    qed
  next
    case False
    then have yr: "y \<in> set (addrs r)" using Node.prems(3) ay by auto
    have sub: "set (addrs (sub_at y r)) \<subseteq> set (addrs r)" by (rule addrs_sub_at)
    have pq: "par_of y (Some a) r = Some q" using Node.prems(5) ay False by simp
    have u: "set (addrs u) \<subseteq> set (addrs (sub_at y r))" using Node.prems(9) ay False by simp
    have fr: "\<forall>b. b \<notin> set (addrs (sub_at y r)) \<and> b \<noteq> q \<longrightarrow> h' b = h b"
      using Node.prems(10) ay False by simp
    have lny: "left n \<noteq> Some y"
    proof
      assume "left n = Some y"
      then have "root_of l = Some y" using rep_root[OF n(7)] by simp
      then have "y \<in> set (addrs l)" by (cases l) auto
      with False show False by simp
    qed
    show ?thesis
    proof (cases "right n = Some y")
      case T: True
      then have "root_of r = Some y" using rep_root[OF n(8)] by simp
      then obtain l1 k1 v1 d1 r1 where r: "r = Node l1 y k1 v1 d1 r1" by (cases r) auto
      have qa: "q = a" using pq by (simp add: r)
      have qn: "qn = n" using Node.prems(6) n(1) qa by simp
      have rl: "rep h' (left n) (Some a) l"
        using n(7) dist(3,5) fr sub qa by (subst rep_cong[where h = h]) auto
      show ?thesis
        using ay False Node.prems(7,8) qa qn T lny n rl by (simp add: r)
    next
      case F: False
      then have nr: "root_of r \<noteq> Some y" using rep_root[OF n(8)] by simp
      obtain q' where q': "par_of y (Some a) r = Some q'" "q' \<in> set (addrs r)"
        using par_of_inside[OF yr nr] by blast
      have qr: "q \<in> set (addrs r)" using q' pq by simp
      have ih: "rep h' (right n) (Some a) (repl y u r)"
        using Node.IH(2)[OF n(8) dist(2) yr F pq Node.prems(6,7,8) u fr] .
      have h'a: "h' a = h a" using fr dist(4) sub qr by auto
      have rl: "rep h' (left n) (Some a) l"
        using n(7) dist(3,5) fr sub qr by (subst rep_cong[where h = h]) auto
      show ?thesis using ay False ih h'a n rl by simp
    qed
  qed
qed


section \<open>Rotations in the store\<close>

lemma rep_Node_iff:
  "rep h (Some a) par (Node l a k v d r) =
   (\<exists>n. h a = Some n \<and> key n = k \<and> val n = v \<and> height n = d \<and> parent n = par \<and>
        rep h (left n) (Some a) l \<and> rep h (right n) (Some a) r)"
  by simp

text \<open>Changing only the parent pointer of the root of a represented subtree.\<close>

lemma rep_reparent:
  assumes "rep h p par t" and "distinct (addrs t)"
    and "\<forall>b. b \<in> set (addrs t) \<and> Some b \<noteq> p \<longrightarrow> h' b = h b"
    and "case p of None \<Rightarrow> True | Some c \<Rightarrow> (\<exists>n. h c = Some n \<and> h' c = Some (n\<lparr>parent := par'\<rparr>))"
  shows "rep h' p par' t"
proof (cases t)
  case Leaf
  then show ?thesis using assms(1) by simp
next
  case (Node l a k v d r)
  obtain n where n: "h a = Some n" "p = Some a" "key n = k" "val n = v" "height n = d"
    "parent n = par" "rep h (left n) (Some a) l" "rep h (right n) (Some a) r"
    using assms(1) Node by auto
  have dist: "a \<notin> set (addrs l)" "a \<notin> set (addrs r)" using assms(2) Node by auto
  have h'a: "h' a = Some (n\<lparr>parent := par'\<rparr>)" using assms(4) n(1,2) by simp
  have l: "rep h' (left n) (Some a) l"
    using n(7) dist assms(3) n(2) Node by (subst rep_cong[where h = h]) auto
  have r: "rep h' (right n) (Some a) r"
    using n(8) dist assms(3) n(2) Node by (subst rep_cong[where h = h]) auto
  show ?thesis using Node n h'a l r by simp
qed

lemma RotateRight_local:
  assumes nroot: "Some y \<noteq> mRoot s"
    and q: "heap s q = Some qn" "left qn = Some y \<or> right qn = Some y"
    and rp: "rep (heap s) (Some y) (Some q) (Node (Node ll b kb vb db lr) y k v d r)"
    and dist: "distinct (addrs (Node (Node ll b kb vb db lr) y k v d r))"
    and qout: "q \<notin> set (addrs (Node (Node ll b kb vb db lr) y k v d r))"
  shows "\<exists>s'. RotateRight y s = Some s'
           \<and> heap s' q = Some (if left qn = Some y then qn\<lparr>left := Some b\<rparr> else qn\<lparr>right := Some b\<rparr>)
           \<and> rep (heap s') (Some b) (Some q) (rotR_root (height qn + 1) (Node (Node ll b kb vb db lr) y k v d r))
           \<and> (\<forall>x. x \<notin> set (addrs (Node (Node ll b kb vb db lr) y k v d r)) \<and> x \<noteq> q \<longrightarrow> heap s' x = heap s x)
           \<and> mRoot s' = mRoot s \<and> brk s' = brk s \<and> size_m s' = size_m s \<and> log s' = log s @ [RotR y]"
proof -
  let ?h = "heap s"
  obtain ny where ny: "?h y = Some ny" "key ny = k" "val ny = v" "height ny = d"
    "parent ny = Some q" "rep ?h (left ny) (Some y) (Node ll b kb vb db lr)" "rep ?h (right ny) (Some y) r"
    using rp by auto
  have lny: "left ny = Some b" using ny(6) by simp
  obtain nb where nb: "?h b = Some nb" "key nb = kb" "val nb = vb" "height nb = db"
    "parent nb = Some y" "rep ?h (left nb) (Some b) ll" "rep ?h (right nb) (Some b) lr"
    using ny(6) by auto
  have ne: "q \<noteq> y" "q \<noteq> b" "b \<noteq> y" "y \<notin> set (addrs ll)" "y \<notin> set (addrs lr)" "y \<notin> set (addrs r)"
    "b \<notin> set (addrs ll)" "b \<notin> set (addrs lr)" "b \<notin> set (addrs r)"
    "q \<notin> set (addrs ll)" "q \<notin> set (addrs lr)" "q \<notin> set (addrs r)"
    "set (addrs ll) \<inter> set (addrs lr) = {}" "set (addrs ll) \<inter> set (addrs r) = {}"
    "set (addrs lr) \<inter> set (addrs r) = {}" "distinct (addrs ll)" "distinct (addrs lr)" "distinct (addrs r)"
    using dist qout by auto
  define qn' where "qn' = (if left qn = Some y then qn\<lparr>left := Some b\<rparr> else qn\<lparr>right := Some b\<rparr>)"
  define h1 where "h1 = ?h(q \<mapsto> qn')"
  define h2 where "h2 = h1(b \<mapsto> nb\<lparr>parent := Some q\<rparr>)"
  define h3 where "h3 = h2(y \<mapsto> ny\<lparr>parent := Some b\<rparr>)"
  define h4 where "h4 = h3(y \<mapsto> ny\<lparr>parent := Some b, left := right nb\<rparr>)"
  define h5 where "h5 = (case right nb of None \<Rightarrow> h4
                          | Some c \<Rightarrow> h4(c \<mapsto> (the (?h c))\<lparr>parent := Some y\<rparr>))"
  define h6 where "h6 = h5(b \<mapsto> nb\<lparr>parent := Some q, right := Some y\<rparr>)"
  have s1: "(if left qn = Some y then set_left q (left ny) ?h else set_right q (left ny) ?h) = Some h1"
    using q by (auto simp: set_left_def set_right_def h1_def qn'_def lny)
  have h1y: "h1 y = Some ny" using ne ny by (simp add: h1_def)
  have s2: "set_parent b (Some q) h1 = Some h2"
    using ne nb by (simp add: set_parent_def h1_def h2_def)
  have s3: "set_parent y (Some b) h2 = Some h3"
    using ne ny by (simp add: set_parent_def h1_def h2_def h3_def)
  have h3b: "h3 b = Some (nb\<lparr>parent := Some q\<rparr>)" using ne by (simp add: h3_def h2_def)
  have s4: "set_left y (right nb) h3 = Some h4"
    by (simp add: set_left_def h3_def h4_def)
  have h4y: "h4 y = Some (ny\<lparr>parent := Some b, left := right nb\<rparr>)" by (simp add: h4_def)
  have rlr: "right nb = root_of lr" using rep_root[OF nb(7)] .
  have s5: "(case right nb of None \<Rightarrow> Some h4 | Some c \<Rightarrow> set_parent c (Some y) h4) = Some h5"
  proof (cases "right nb")
    case None
    then show ?thesis by (simp add: h5_def)
  next
    case (Some c)
    then have "c \<in> set (addrs lr)" using rlr by (cases lr) auto
    then have c: "c \<noteq> q" "c \<noteq> y" "c \<noteq> b" "?h c \<noteq> None" using ne rep_dom[OF nb(7)] by auto
    then show ?thesis using Some
      by (auto simp: h5_def set_parent_def h4_def h3_def h2_def h1_def)
  qed
  have h5b: "h5 b = Some (nb\<lparr>parent := Some q\<rparr>)"
  proof (cases "right nb")
    case None
    then show ?thesis using ne by (simp add: h5_def h4_def h3_def h2_def)
  next
    case (Some c)
    then have "c \<in> set (addrs lr)" using rlr by (cases lr) auto
    then have c: "c \<noteq> b" using ne by auto
    then show ?thesis using Some ne by (simp add: h5_def h4_def h3_def h2_def)
  qed
  have s6: "set_right b (Some y) h5 = Some h6"
    using h5b by (simp add: set_right_def h6_def)
  have out: "\<And>x. x \<noteq> q \<Longrightarrow> x \<noteq> y \<Longrightarrow> x \<noteq> b \<Longrightarrow> Some x \<noteq> right nb \<Longrightarrow> h6 x = ?h x"
    by (auto simp: h6_def h5_def h4_def h3_def h2_def h1_def split: option.splits)
  have h6q: "h6 q = Some qn'"
  proof -
    have "Some q \<noteq> right nb" using rlr ne by (cases lr) auto
    then show ?thesis using ne
      by (auto simp: h6_def h5_def h4_def h3_def h2_def h1_def split: option.splits)
  qed
  have h6b: "h6 b = Some (nb\<lparr>parent := Some q, right := Some y\<rparr>)" by (simp add: h6_def)
  have h6y: "h6 y = Some (ny\<lparr>parent := Some b, left := right nb\<rparr>)"
  proof -
    have "Some y \<noteq> right nb" using rlr ne by (cases lr) auto
    then show ?thesis using ne
      by (auto simp: h6_def h5_def h4_def split: option.splits)
  qed
  have rll: "rep h6 (left nb) (Some b) ll"
  proof -
    have "\<And>x. x \<in> set (addrs ll) \<Longrightarrow> h6 x = ?h x"
    proof -
      fix x assume x: "x \<in> set (addrs ll)"
      then have "Some x \<noteq> right nb" using rlr ne by (cases lr) auto
      then show "h6 x = ?h x" using x ne by (intro out) auto
    qed
    then show ?thesis using nb(6) by (subst rep_cong[where h = "?h"]) auto
  qed
  have rr: "rep h6 (right ny) (Some y) r"
  proof -
    have "\<And>x. x \<in> set (addrs r) \<Longrightarrow> h6 x = ?h x"
    proof -
      fix x assume x: "x \<in> set (addrs r)"
      then have "Some x \<noteq> right nb" using rlr ne by (cases lr) auto
      then show "h6 x = ?h x" using x ne by (intro out) auto
    qed
    then show ?thesis using ny(7) by (subst rep_cong[where h = "?h"]) auto
  qed
  have rlr': "rep h6 (right nb) (Some y) lr"
  proof (rule rep_reparent[OF nb(7) ne(17)])
    show "\<forall>x. x \<in> set (addrs lr) \<and> Some x \<noteq> right nb \<longrightarrow> h6 x = ?h x"
      using ne by (auto intro!: out)
    show "case right nb of None \<Rightarrow> True
          | Some c \<Rightarrow> \<exists>n. ?h c = Some n \<and> h6 c = Some (n\<lparr>parent := Some y\<rparr>)"
    proof (cases "right nb")
      case None
      then show ?thesis by simp
    next
      case (Some c)
      then have "c \<in> set (addrs lr)" using rlr by (cases lr) auto
      then have c: "c \<noteq> q" "c \<noteq> y" "c \<noteq> b" "?h c \<noteq> None" using ne rep_dom[OF nb(7)] by auto
      then show ?thesis using Some by (auto simp: h6_def h5_def)
    qed
  qed
  have rep6: "rep h6 (Some b) (Some q) (Node ll b kb vb db (Node lr y k v d r))"
    using h6b h6y nb ny rll rr rlr' by simp
  have d6: "distinct (addrs (Node ll b kb vb db (Node lr y k v d r)))" using dist by auto
  have pre: "case Some q of None \<Rightarrow> height qn + 1 = 0
     | Some q' \<Rightarrow> q' \<notin> set (addrs (Node ll b kb vb db (Node lr y k v d r))) \<and>
        (\<exists>qn''. h6 q' = Some qn'' \<and> height qn + 1 = height qn'' + 1)"
    using qout h6q by (auto simp: qn'_def)
  from UpdateSubtreeHeights_rep[OF rep6 d6 pre]
  obtain h7 where h7: "UpdateSubtreeHeights h6 (Some b) = Some h7"
    "rep h7 (Some b) (Some q) (set_depths (height qn + 1) (Node ll b kb vb db (Node lr y k v d r)))"
    "\<forall>x. x \<notin> set (addrs (Node ll b kb vb db (Node lr y k v d r))) \<longrightarrow> h7 x = h6 x"
    by blast
  have res: "RotateRight y s = Some (s\<lparr>log := log s @ [RotR y], heap := h7\<rparr>)"
    unfolding RotateRight_def Let_def
    using nroot ny(1,5) q(1) s1 h1y lny s2 s3 h3b s4 h4y s5 s6 h7(1)
    by (cases "left qn = Some y") (simp_all add: eq_commute[of "Some y" "left qn"])
  have fr: "\<forall>x. x \<notin> set (addrs (Node (Node ll b kb vb db lr) y k v d r)) \<and> x \<noteq> q \<longrightarrow> h7 x = ?h x"
  proof (intro allI impI)
    fix x assume x: "x \<notin> set (addrs (Node (Node ll b kb vb db lr) y k v d r)) \<and> x \<noteq> q"
    then have "Some x \<noteq> right nb" using rlr by (cases lr) auto
    then have "h6 x = ?h x" using x by (intro out) auto
    moreover have "h7 x = h6 x" using h7(3) x by auto
    ultimately show "h7 x = ?h x" by simp
  qed
  have h7q: "h7 q = Some qn'" using h7(3) qout h6q by auto
  show ?thesis
    using res h7(2) fr h7q by (simp add: qn'_def)
qed


lemma RotateRootRight_rep:
  assumes root: "mRoot s = Some y"
    and rp: "rep (heap s) (Some y) None (Node (Node ll b kb vb db lr) y k v d r)"
    and dist: "distinct (addrs (Node (Node ll b kb vb db lr) y k v d r))"
  shows "\<exists>s'. RotateRootRight s = Some s'
           \<and> mRoot s' = Some b
           \<and> rep (heap s') (Some b) None (rotR_root 0 (Node (Node ll b kb vb db lr) y k v d r))
           \<and> (\<forall>x. x \<notin> set (addrs (Node (Node ll b kb vb db lr) y k v d r)) \<longrightarrow> heap s' x = heap s x)
           \<and> brk s' = brk s \<and> size_m s' = size_m s \<and> log s' = log s"
proof -
  let ?h = "heap s"
  obtain ny where ny: "?h y = Some ny" "key ny = k" "val ny = v" "height ny = d"
    "parent ny = None" "rep ?h (left ny) (Some y) (Node ll b kb vb db lr)" "rep ?h (right ny) (Some y) r"
    using rp by auto
  have lny: "left ny = Some b" using ny(6) by simp
  obtain nb where nb: "?h b = Some nb" "key nb = kb" "val nb = vb" "height nb = db"
    "parent nb = Some y" "rep ?h (left nb) (Some b) ll" "rep ?h (right nb) (Some b) lr"
    using ny(6) by auto
  have ne: "b \<noteq> y" "y \<notin> set (addrs ll)" "y \<notin> set (addrs lr)" "y \<notin> set (addrs r)"
    "b \<notin> set (addrs ll)" "b \<notin> set (addrs lr)" "b \<notin> set (addrs r)"
    "set (addrs ll) \<inter> set (addrs lr) = {}" "set (addrs ll) \<inter> set (addrs r) = {}"
    "set (addrs lr) \<inter> set (addrs r) = {}" "distinct (addrs ll)" "distinct (addrs lr)" "distinct (addrs r)"
    using dist by auto
  define h1 where "h1 = ?h(b \<mapsto> nb\<lparr>parent := None\<rparr>)"
  define h2 where "h2 = h1(y \<mapsto> ny\<lparr>parent := Some b\<rparr>)"
  define h3 where "h3 = h2(y \<mapsto> ny\<lparr>parent := Some b, left := right nb\<rparr>)"
  define h4 where "h4 = (case right nb of None \<Rightarrow> h3
                          | Some c \<Rightarrow> h3(c \<mapsto> (the (?h c))\<lparr>parent := Some y\<rparr>))"
  define h5 where "h5 = h4(b \<mapsto> nb\<lparr>parent := None, right := Some y\<rparr>)"
  have s1: "set_parent b None ?h = Some h1"
    using nb by (simp add: set_parent_def h1_def)
  have s2: "set_parent y (Some b) h1 = Some h2"
    using ne ny by (simp add: set_parent_def h1_def h2_def)
  have h2b: "h2 b = Some (nb\<lparr>parent := None\<rparr>)" using ne by (simp add: h2_def h1_def)
  have s3: "set_left y (right nb) h2 = Some h3"
    by (simp add: set_left_def h2_def h3_def)
  have h3y: "h3 y = Some (ny\<lparr>parent := Some b, left := right nb\<rparr>)" by (simp add: h3_def)
  have rlr: "right nb = root_of lr" using rep_root[OF nb(7)] .
  have s4: "(case right nb of None \<Rightarrow> Some h3 | Some c \<Rightarrow> set_parent c (Some y) h3) = Some h4"
  proof (cases "right nb")
    case None
    then show ?thesis by (simp add: h4_def)
  next
    case (Some c)
    then have "c \<in> set (addrs lr)" using rlr by (cases lr) auto
    then have c: "c \<noteq> y" "c \<noteq> b" "?h c \<noteq> None" using ne rep_dom[OF nb(7)] by auto
    then show ?thesis using Some
      by (auto simp: h4_def set_parent_def h3_def h2_def h1_def)
  qed
  have h4b: "h4 b = Some (nb\<lparr>parent := None\<rparr>)"
  proof (cases "right nb")
    case None
    then show ?thesis using ne by (simp add: h4_def h3_def h2_def h1_def)
  next
    case (Some c)
    then have "c \<in> set (addrs lr)" using rlr by (cases lr) auto
    then have c: "c \<noteq> b" using ne by auto
    then show ?thesis using Some ne by (simp add: h4_def h3_def h2_def h1_def)
  qed
  have s5: "set_right b (Some y) h4 = Some h5"
    using h4b by (simp add: set_right_def h5_def)
  have out: "\<And>x. x \<noteq> y \<Longrightarrow> x \<noteq> b \<Longrightarrow> Some x \<noteq> right nb \<Longrightarrow> h5 x = ?h x"
    by (auto simp: h5_def h4_def h3_def h2_def h1_def split: option.splits)
  have h5b: "h5 b = Some (nb\<lparr>parent := None, right := Some y\<rparr>)" by (simp add: h5_def)
  have h5y: "h5 y = Some (ny\<lparr>parent := Some b, left := right nb\<rparr>)"
  proof -
    have "Some y \<noteq> right nb" using rlr ne by (cases lr) auto
    then show ?thesis using ne
      by (auto simp: h5_def h4_def h3_def split: option.splits)
  qed
  have rll: "rep h5 (left nb) (Some b) ll"
  proof -
    have "\<And>x. x \<in> set (addrs ll) \<Longrightarrow> h5 x = ?h x"
    proof -
      fix x assume x: "x \<in> set (addrs ll)"
      then have "Some x \<noteq> right nb" using rlr ne by (cases lr) auto
      then show "h5 x = ?h x" using x ne by (intro out) auto
    qed
    then show ?thesis using nb(6) by (subst rep_cong[where h = "?h"]) auto
  qed
  have rr: "rep h5 (right ny) (Some y) r"
  proof -
    have "\<And>x. x \<in> set (addrs r) \<Longrightarrow> h5 x = ?h x"
    proof -
      fix x assume x: "x \<in> set (addrs r)"
      then have "Some x \<noteq> right nb" using rlr ne by (cases lr) auto
      then show "h5 x = ?h x" using x ne by (intro out) auto
    qed
    then show ?thesis using ny(7) by (subst rep_cong[where h = "?h"]) auto
  qed
  have rlr': "rep h5 (right nb) (Some y) lr"
  proof (rule rep_reparent[OF nb(7) ne(12)])
    show "\<forall>x. x \<in> set (addrs lr) \<and> Some x \<noteq> right nb \<longrightarrow> h5 x = ?h x"
      using ne by (auto intro!: out)
    show "case right nb of None \<Rightarrow> True
          | Some c \<Rightarrow> \<exists>n. ?h c = Some n \<and> h5 c = Some (n\<lparr>parent := Some y\<rparr>)"
    proof (cases "right nb")
      case None
      then show ?thesis by simp
    next
      case (Some c)
      then have "c \<in> set (addrs lr)" using rlr by (cases lr) auto
      then have c: "c \<noteq> y" "c \<noteq> b" "?h c \<noteq> None" using ne rep_dom[OF nb(7)] by auto
      then show ?thesis using Some by (auto simp: h5_def h4_def)
    qed
  qed
  have rep5: "rep h5 (Some b) None (Node ll b kb vb db (Node lr y k v d r))"
    using h5b h5y nb ny rll rr rlr' by simp
  have d5: "distinct (addrs (Node ll b kb vb db (Node lr y k v d r)))" using dist by auto
  have pre: "case None :: addr option of None \<Rightarrow> (0::int) = 0
     | Some q' \<Rightarrow> q' \<notin> set (addrs (Node ll b kb vb db (Node lr y k v d r))) \<and>
        (\<exists>qn''. h5 q' = Some qn'' \<and> 0 = height qn'' + 1)"
    by simp
  from UpdateSubtreeHeights_rep[OF rep5 d5 pre]
  obtain h6 where h6: "UpdateSubtreeHeights h5 (Some b) = Some h6"
    "rep h6 (Some b) None (set_depths 0 (Node ll b kb vb db (Node lr y k v d r)))"
    "\<forall>x. x \<notin> set (addrs (Node ll b kb vb db (Node lr y k v d r))) \<longrightarrow> h6 x = h5 x"
    by blast
  have res: "RotateRootRight s = Some (s\<lparr>mRoot := Some b, heap := h6\<rparr>)"
    unfolding RotateRootRight_def
    using root ny(1) lny s1 s2 h2b s3 h3y s4 s5 h6(1)
    by simp
  have fr: "\<forall>x. x \<notin> set (addrs (Node (Node ll b kb vb db lr) y k v d r)) \<longrightarrow> h6 x = ?h x"
  proof (intro allI impI)
    fix x assume x: "x \<notin> set (addrs (Node (Node ll b kb vb db lr) y k v d r))"
    then have "Some x \<noteq> right nb" using rlr by (cases lr) auto
    then have "h5 x = ?h x" using x by (intro out) auto
    moreover have "h6 x = h5 x" using h6(3) x by auto
    ultimately show "h6 x = ?h x" by simp
  qed
  show ?thesis
    using res h6(2) fr by simp
qed


section \<open>Rotations in the tree\<close>

lemma items_repl:
  "y \<in> set (addrs t) \<Longrightarrow> items u = items (sub_at y t) \<Longrightarrow> items (repl y u t) = items t"
  by (induction t) auto

lemma items_rotR_root [simp]: "items (rotR_root d' t) = items t"
  by (induction d' t rule: rotR_root.induct) auto

lemma items_rotR_at: "items (rotR_at y t) = items t"
proof (cases "y \<in> set (addrs t)")
  case True
  then show ?thesis unfolding rotR_at_def by (intro items_repl) auto
next
  case False
  have "\<And>u. repl y u t = t" using False by (induction t) auto
  then show ?thesis by (simp add: rotR_at_def)
qed

lemma sub_at_Node_in: "sub_at y t = Node l a k v d r \<Longrightarrow> y \<in> set (addrs t) \<and> a = y"
proof -
  assume a: "sub_at y t = Node l a k v d r"
  have "y \<in> set (addrs t)" using a sub_at_absent[of y t] by auto
  moreover from sub_at_root[OF this] a have "a = y" by simp
  ultimately show ?thesis by simp
qed

lemma RotateRight_repr:
  assumes r: "repr s t"
    and sub: "sub_at y t = Node (Node ll b kb vb db lr) y k v d r"
  shows "\<exists>s'. RotateRight y s = Some s' \<and> repr s' (rotR_at y t)
           \<and> brk s' = brk s \<and> log s' = log s @ [RotR y]
           \<and> (\<forall>x. x \<notin> set (addrs t) \<longrightarrow> heap s' x = heap s x)"
proof -
  let ?u = "Node (Node ll b kb vb db lr) y k v d r"
  have rp: "rep (heap s) (mRoot s) None t" and dist: "distinct (addrs t)"
    and bound: "\<forall>a. heap s a \<noteq> None \<longrightarrow> a < brk s"
    and sz: "size_m s = of_nat (length (addrs t))"
    using r by (auto simp: repr_def)
  have yin: "y \<in> set (addrs t)" using sub_at_Node_in[OF sub] by simp
  have it: "items (rotR_at y t) = items t" by (rule items_rotR_at)
  have ad: "addrs (rotR_at y t) = addrs t" by (simp add: set_addrs_items it)
  have du: "distinct (addrs ?u)" using distinct_sub_at[OF dist, of y] sub by simp
  have usub: "set (addrs ?u) \<subseteq> set (addrs t)" using addrs_sub_at[of y t] sub by simp
  show ?thesis
  proof (cases "mRoot s = Some y")
    case True
    then have "root_of t = Some y" using rep_root[OF rp] by simp
    then have t: "t = ?u" using sub by (cases t) auto
    let ?s = "s\<lparr>log := log s @ [RotR y]\<rparr>"
    have "rep (heap ?s) (Some y) None ?u" using rp True t by simp
    from RotateRootRight_rep[OF _ this du, simplified, OF True]
    obtain s' where s': "RotateRootRight ?s = Some s'" "mRoot s' = Some b"
      "rep (heap s') (Some b) None (rotR_root 0 ?u)"
      "\<forall>x. x \<notin> set (addrs ?u) \<longrightarrow> heap s' x = heap s x"
      "brk s' = brk s" "size_m s' = size_m s" "log s' = log s @ [RotR y]"
      by auto
    have rt: "rotR_at y t = rotR_root 0 ?u" by (simp add: rotR_at_def t)
    have res: "RotateRight y s = Some s'"
      using s'(1) True by (simp add: RotateRight_def Let_def)
    have b': "\<forall>a. heap s' a \<noteq> None \<longrightarrow> a < brk s'"
    proof (intro allI impI)
      fix a assume a: "heap s' a \<noteq> None"
      show "a < brk s'"
      proof (cases "a \<in> set (addrs ?u)")
        case True
        then have "heap s a \<noteq> None" using rep_dom[OF rp] usub by auto
        then show ?thesis using bound s'(5) by simp
      next
        case False
        then show ?thesis using a s'(4,5) bound by simp
      qed
    qed
    have "repr s' (rotR_at y t)"
      unfolding repr_def using s'(2,3,6) b' ad dist sz rt by simp
    moreover have "\<forall>x. x \<notin> set (addrs t) \<longrightarrow> heap s' x = heap s x" using s'(4) t by simp
    ultimately show ?thesis using res s'(5,7) by blast
  next
    case False
    from rep_context[OF rp dist yin, of "0"] False
    obtain q qn where q: "par_of y None t = Some q" "q \<in> set (addrs t)" "q \<notin> set (addrs (sub_at y t))"
      "heap s q = Some qn" "height qn + 1 = pdepth y 0 t" "left qn = Some y \<or> right qn = Some y"
      and ry: "rep (heap s) (Some y) (par_of y None t) (sub_at y t)"
      by auto
    have nroot: "Some y \<noteq> mRoot s" using False by auto
    have ry': "rep (heap s) (Some y) (Some q) ?u" using ry q(1) sub by simp
    have qout: "q \<notin> set (addrs ?u)" using q(3) sub by simp
    from RotateRight_local[OF nroot q(4,6) ry' du qout]
    obtain s' where s': "RotateRight y s = Some s'"
      "heap s' q = Some (if left qn = Some y then qn\<lparr>left := Some b\<rparr> else qn\<lparr>right := Some b\<rparr>)"
      "rep (heap s') (Some b) (Some q) (rotR_root (height qn + 1) ?u)"
      "\<forall>x. x \<notin> set (addrs ?u) \<and> x \<noteq> q \<longrightarrow> heap s' x = heap s x"
      "mRoot s' = mRoot s" "brk s' = brk s" "size_m s' = size_m s" "log s' = log s @ [RotR y]"
      by blast
    have au: "set (addrs (rotR_root (height qn + 1) ?u)) \<subseteq> set (addrs (sub_at y t))"
      by (auto simp: sub)
    have fr: "\<forall>b. b \<notin> set (addrs (sub_at y t)) \<and> b \<noteq> q \<longrightarrow> heap s' b = heap s b"
      using s'(4) sub by simp
    have "rep (heap s') (mRoot s) None (repl y (rotR_root (height qn + 1) ?u) t)"
      using rep_repl[OF rp dist yin _ q(1) q(4) s'(2) s'(3) au fr] False by simp
    then have rp': "rep (heap s') (mRoot s') None (rotR_at y t)"
      by (simp add: rotR_at_def q(5) sub s'(5))
    have b': "\<forall>a. heap s' a \<noteq> None \<longrightarrow> a < brk s'"
    proof (intro allI impI)
      fix a assume a: "heap s' a \<noteq> None"
      show "a < brk s'"
      proof (cases "a \<in> set (addrs ?u) \<or> a = q")
        case True
        then have "heap s a \<noteq> None" using rep_dom[OF rp] usub q(2) by auto
        then show ?thesis using bound s'(6) by simp
      next
        case False
        then show ?thesis using a s'(4,6) bound by simp
      qed
    qed
    have "repr s' (rotR_at y t)"
      unfolding repr_def using rp' s'(7) b' ad dist sz by simp
    moreover have "\<forall>x. x \<notin> set (addrs t) \<longrightarrow> heap s' x = heap s x"
      using s'(4) usub q(2) by blast
    ultimately show ?thesis using s'(1,6,8) by blast
  qed
qed


lemma RotateLeft_local:
  assumes nroot: "Some y \<noteq> mRoot s"
    and q: "heap s q = Some qn" "left qn = Some y \<or> right qn = Some y"
    and rp: "rep (heap s) (Some y) (Some q) (Node l y k v d (Node rl b kb vb db rr))"
    and dist: "distinct (addrs (Node l y k v d (Node rl b kb vb db rr)))"
    and qout: "q \<notin> set (addrs (Node l y k v d (Node rl b kb vb db rr)))"
  shows "\<exists>s'. RotateLeft y s = Some s'
           \<and> heap s' q = Some (if left qn = Some y then qn\<lparr>left := Some b\<rparr> else qn\<lparr>right := Some b\<rparr>)
           \<and> rep (heap s') (Some b) (Some q) (rotL_root (height qn + 1) (Node l y k v d (Node rl b kb vb db rr)))
           \<and> (\<forall>x. x \<notin> set (addrs (Node l y k v d (Node rl b kb vb db rr))) \<and> x \<noteq> q \<longrightarrow> heap s' x = heap s x)
           \<and> mRoot s' = mRoot s \<and> brk s' = brk s \<and> size_m s' = size_m s \<and> log s' = log s @ [RotL y]"
proof -
  let ?h = "heap s"
  obtain ny where ny: "?h y = Some ny" "key ny = k" "val ny = v" "height ny = d"
    "parent ny = Some q" "rep ?h (right ny) (Some y) (Node rl b kb vb db rr)" "rep ?h (left ny) (Some y) l"
    using rp by auto
  have lny: "right ny = Some b" using ny(6) by simp
  obtain nb where nb: "?h b = Some nb" "key nb = kb" "val nb = vb" "height nb = db"
    "parent nb = Some y" "rep ?h (right nb) (Some b) rr" "rep ?h (left nb) (Some b) rl"
    using ny(6) by auto
  have ne: "q \<noteq> y" "q \<noteq> b" "b \<noteq> y" "y \<notin> set (addrs rr)" "y \<notin> set (addrs rl)" "y \<notin> set (addrs l)"
    "b \<notin> set (addrs rr)" "b \<notin> set (addrs rl)" "b \<notin> set (addrs l)"
    "q \<notin> set (addrs rr)" "q \<notin> set (addrs rl)" "q \<notin> set (addrs l)"
    "set (addrs rr) \<inter> set (addrs rl) = {}" "set (addrs rr) \<inter> set (addrs l) = {}"
    "set (addrs rl) \<inter> set (addrs l) = {}" "distinct (addrs rr)" "distinct (addrs rl)" "distinct (addrs l)"
    using dist qout by auto
  define qn' where "qn' = (if left qn = Some y then qn\<lparr>left := Some b\<rparr> else qn\<lparr>right := Some b\<rparr>)"
  define h1 where "h1 = ?h(q \<mapsto> qn')"
  define h2 where "h2 = h1(b \<mapsto> nb\<lparr>parent := Some q\<rparr>)"
  define h3 where "h3 = h2(y \<mapsto> ny\<lparr>parent := Some b\<rparr>)"
  define h4 where "h4 = h3(y \<mapsto> ny\<lparr>parent := Some b, right := left nb\<rparr>)"
  define h5 where "h5 = (case left nb of None \<Rightarrow> h4
                          | Some c \<Rightarrow> h4(c \<mapsto> (the (?h c))\<lparr>parent := Some y\<rparr>))"
  define h6 where "h6 = h5(b \<mapsto> nb\<lparr>parent := Some q, left := Some y\<rparr>)"
  have s1: "(if left qn = Some y then set_left q (right ny) ?h else set_right q (right ny) ?h) = Some h1"
    using q by (auto simp: set_right_def set_left_def h1_def qn'_def lny)
  have h1y: "h1 y = Some ny" using ne ny by (simp add: h1_def)
  have s2: "set_parent b (Some q) h1 = Some h2"
    using ne nb by (simp add: set_parent_def h1_def h2_def)
  have s3: "set_parent y (Some b) h2 = Some h3"
    using ne ny by (simp add: set_parent_def h1_def h2_def h3_def)
  have h3b: "h3 b = Some (nb\<lparr>parent := Some q\<rparr>)" using ne by (simp add: h3_def h2_def)
  have s4: "set_right y (left nb) h3 = Some h4"
    by (simp add: set_right_def h3_def h4_def)
  have h4y: "h4 y = Some (ny\<lparr>parent := Some b, right := left nb\<rparr>)" by (simp add: h4_def)
  have lrl: "left nb = root_of rl" using rep_root[OF nb(7)] .
  have s5: "(case left nb of None \<Rightarrow> Some h4 | Some c \<Rightarrow> set_parent c (Some y) h4) = Some h5"
  proof (cases "left nb")
    case None
    then show ?thesis by (simp add: h5_def)
  next
    case (Some c)
    then have "c \<in> set (addrs rl)" using lrl by (cases rl) auto
    then have c: "c \<noteq> q" "c \<noteq> y" "c \<noteq> b" "?h c \<noteq> None" using ne rep_dom[OF nb(7)] by auto
    then show ?thesis using Some
      by (auto simp: h5_def set_parent_def h4_def h3_def h2_def h1_def)
  qed
  have h5b: "h5 b = Some (nb\<lparr>parent := Some q\<rparr>)"
  proof (cases "left nb")
    case None
    then show ?thesis using ne by (simp add: h5_def h4_def h3_def h2_def)
  next
    case (Some c)
    then have "c \<in> set (addrs rl)" using lrl by (cases rl) auto
    then have c: "c \<noteq> b" using ne by auto
    then show ?thesis using Some ne by (simp add: h5_def h4_def h3_def h2_def)
  qed
  have s6: "set_left b (Some y) h5 = Some h6"
    using h5b by (simp add: set_left_def h6_def)
  have out: "\<And>x. x \<noteq> q \<Longrightarrow> x \<noteq> y \<Longrightarrow> x \<noteq> b \<Longrightarrow> Some x \<noteq> left nb \<Longrightarrow> h6 x = ?h x"
    by (auto simp: h6_def h5_def h4_def h3_def h2_def h1_def split: option.splits)
  have h6q: "h6 q = Some qn'"
  proof -
    have "Some q \<noteq> left nb" using lrl ne by (cases rl) auto
    then show ?thesis using ne
      by (auto simp: h6_def h5_def h4_def h3_def h2_def h1_def split: option.splits)
  qed
  have h6b: "h6 b = Some (nb\<lparr>parent := Some q, left := Some y\<rparr>)" by (simp add: h6_def)
  have h6y: "h6 y = Some (ny\<lparr>parent := Some b, right := left nb\<rparr>)"
  proof -
    have "Some y \<noteq> left nb" using lrl ne by (cases rl) auto
    then show ?thesis using ne
      by (auto simp: h6_def h5_def h4_def split: option.splits)
  qed
  have lrr: "rep h6 (right nb) (Some b) rr"
  proof -
    have "\<And>x. x \<in> set (addrs rr) \<Longrightarrow> h6 x = ?h x"
    proof -
      fix x assume x: "x \<in> set (addrs rr)"
      then have "Some x \<noteq> left nb" using lrl ne by (cases rl) auto
      then show "h6 x = ?h x" using x ne by (intro out) auto
    qed
    then show ?thesis using nb(6) by (subst rep_cong[where h = "?h"]) auto
  qed
  have ll: "rep h6 (left ny) (Some y) l"
  proof -
    have "\<And>x. x \<in> set (addrs l) \<Longrightarrow> h6 x = ?h x"
    proof -
      fix x assume x: "x \<in> set (addrs l)"
      then have "Some x \<noteq> left nb" using lrl ne by (cases rl) auto
      then show "h6 x = ?h x" using x ne by (intro out) auto
    qed
    then show ?thesis using ny(7) by (subst rep_cong[where h = "?h"]) auto
  qed
  have rlr': "rep h6 (left nb) (Some y) rl"
  proof (rule rep_reparent[OF nb(7) ne(17)])
    show "\<forall>x. x \<in> set (addrs rl) \<and> Some x \<noteq> left nb \<longrightarrow> h6 x = ?h x"
      using ne by (auto intro!: out)
    show "case left nb of None \<Rightarrow> True
          | Some c \<Rightarrow> \<exists>n. ?h c = Some n \<and> h6 c = Some (n\<lparr>parent := Some y\<rparr>)"
    proof (cases "left nb")
      case None
      then show ?thesis by simp
    next
      case (Some c)
      then have "c \<in> set (addrs rl)" using lrl by (cases rl) auto
      then have c: "c \<noteq> q" "c \<noteq> y" "c \<noteq> b" "?h c \<noteq> None" using ne rep_dom[OF nb(7)] by auto
      then show ?thesis using Some by (auto simp: h6_def h5_def)
    qed
  qed
  have rep6: "rep h6 (Some b) (Some q) (Node (Node l y k v d rl) b kb vb db rr)"
    using h6b h6y nb ny lrr ll rlr' by simp
  have d6: "distinct (addrs (Node (Node l y k v d rl) b kb vb db rr))" using dist by auto
  have pre: "case Some q of None \<Rightarrow> height qn + 1 = 0
     | Some q' \<Rightarrow> q' \<notin> set (addrs (Node (Node l y k v d rl) b kb vb db rr)) \<and>
        (\<exists>qn''. h6 q' = Some qn'' \<and> height qn + 1 = height qn'' + 1)"
    using qout h6q by (auto simp: qn'_def)
  from UpdateSubtreeHeights_rep[OF rep6 d6 pre]
  obtain h7 where h7: "UpdateSubtreeHeights h6 (Some b) = Some h7"
    "rep h7 (Some b) (Some q) (set_depths (height qn + 1) (Node (Node l y k v d rl) b kb vb db rr))"
    "\<forall>x. x \<notin> set (addrs (Node (Node l y k v d rl) b kb vb db rr)) \<longrightarrow> h7 x = h6 x"
    by blast
  have res: "RotateLeft y s = Some (s\<lparr>log := log s @ [RotL y], heap := h7\<rparr>)"
    unfolding RotateLeft_def Let_def
    using nroot ny(1,5) q(1) s1 h1y lny s2 s3 h3b s4 h4y s5 s6 h7(1)
    by (cases "left qn = Some y") (simp_all add: eq_commute[of "Some y" "left qn"])
  have fr: "\<forall>x. x \<notin> set (addrs (Node l y k v d (Node rl b kb vb db rr))) \<and> x \<noteq> q \<longrightarrow> h7 x = ?h x"
  proof (intro allI impI)
    fix x assume x: "x \<notin> set (addrs (Node l y k v d (Node rl b kb vb db rr))) \<and> x \<noteq> q"
    then have "Some x \<noteq> left nb" using lrl by (cases rl) auto
    then have "h6 x = ?h x" using x by (intro out) auto
    moreover have "h7 x = h6 x" using h7(3) x by auto
    ultimately show "h7 x = ?h x" by simp
  qed
  have h7q: "h7 q = Some qn'" using h7(3) qout h6q by auto
  show ?thesis
    using res h7(2) fr h7q by (simp add: qn'_def)
qed


lemma RotateRootLeft_rep:
  assumes root: "mRoot s = Some y"
    and rp: "rep (heap s) (Some y) None (Node l y k v d (Node rl b kb vb db rr))"
    and dist: "distinct (addrs (Node l y k v d (Node rl b kb vb db rr)))"
  shows "\<exists>s'. RotateRootLeft s = Some s'
           \<and> mRoot s' = Some b
           \<and> rep (heap s') (Some b) None (rotL_root 0 (Node l y k v d (Node rl b kb vb db rr)))
           \<and> (\<forall>x. x \<notin> set (addrs (Node l y k v d (Node rl b kb vb db rr))) \<longrightarrow> heap s' x = heap s x)
           \<and> brk s' = brk s \<and> size_m s' = size_m s \<and> log s' = log s"
proof -
  let ?h = "heap s"
  obtain ny where ny: "?h y = Some ny" "key ny = k" "val ny = v" "height ny = d"
    "parent ny = None" "rep ?h (right ny) (Some y) (Node rl b kb vb db rr)" "rep ?h (left ny) (Some y) l"
    using rp by auto
  have lny: "right ny = Some b" using ny(6) by simp
  obtain nb where nb: "?h b = Some nb" "key nb = kb" "val nb = vb" "height nb = db"
    "parent nb = Some y" "rep ?h (right nb) (Some b) rr" "rep ?h (left nb) (Some b) rl"
    using ny(6) by auto
  have ne: "b \<noteq> y" "y \<notin> set (addrs rr)" "y \<notin> set (addrs rl)" "y \<notin> set (addrs l)"
    "b \<notin> set (addrs rr)" "b \<notin> set (addrs rl)" "b \<notin> set (addrs l)"
    "set (addrs rr) \<inter> set (addrs rl) = {}" "set (addrs rr) \<inter> set (addrs l) = {}"
    "set (addrs rl) \<inter> set (addrs l) = {}" "distinct (addrs rr)" "distinct (addrs rl)" "distinct (addrs l)"
    using dist by auto
  define h1 where "h1 = ?h(b \<mapsto> nb\<lparr>parent := None\<rparr>)"
  define h2 where "h2 = h1(y \<mapsto> ny\<lparr>parent := Some b\<rparr>)"
  define h3 where "h3 = h2(y \<mapsto> ny\<lparr>parent := Some b, right := left nb\<rparr>)"
  define h4 where "h4 = (case left nb of None \<Rightarrow> h3
                          | Some c \<Rightarrow> h3(c \<mapsto> (the (?h c))\<lparr>parent := Some y\<rparr>))"
  define h5 where "h5 = h4(b \<mapsto> nb\<lparr>parent := None, left := Some y\<rparr>)"
  have s1: "set_parent b None ?h = Some h1"
    using nb by (simp add: set_parent_def h1_def)
  have s2: "set_parent y (Some b) h1 = Some h2"
    using ne ny by (simp add: set_parent_def h1_def h2_def)
  have h2b: "h2 b = Some (nb\<lparr>parent := None\<rparr>)" using ne by (simp add: h2_def h1_def)
  have s3: "set_right y (left nb) h2 = Some h3"
    by (simp add: set_right_def h2_def h3_def)
  have h3y: "h3 y = Some (ny\<lparr>parent := Some b, right := left nb\<rparr>)" by (simp add: h3_def)
  have lrl: "left nb = root_of rl" using rep_root[OF nb(7)] .
  have s4: "(case left nb of None \<Rightarrow> Some h3 | Some c \<Rightarrow> set_parent c (Some y) h3) = Some h4"
  proof (cases "left nb")
    case None
    then show ?thesis by (simp add: h4_def)
  next
    case (Some c)
    then have "c \<in> set (addrs rl)" using lrl by (cases rl) auto
    then have c: "c \<noteq> y" "c \<noteq> b" "?h c \<noteq> None" using ne rep_dom[OF nb(7)] by auto
    then show ?thesis using Some
      by (auto simp: h4_def set_parent_def h3_def h2_def h1_def)
  qed
  have h4b: "h4 b = Some (nb\<lparr>parent := None\<rparr>)"
  proof (cases "left nb")
    case None
    then show ?thesis using ne by (simp add: h4_def h3_def h2_def h1_def)
  next
    case (Some c)
    then have "c \<in> set (addrs rl)" using lrl by (cases rl) auto
    then have c: "c \<noteq> b" using ne by auto
    then show ?thesis using Some ne by (simp add: h4_def h3_def h2_def h1_def)
  qed
  have s5: "set_left b (Some y) h4 = Some h5"
    using h4b by (simp add: set_left_def h5_def)
  have out: "\<And>x. x \<noteq> y \<Longrightarrow> x \<noteq> b \<Longrightarrow> Some x \<noteq> left nb \<Longrightarrow> h5 x = ?h x"
    by (auto simp: h5_def h4_def h3_def h2_def h1_def split: option.splits)
  have h5b: "h5 b = Some (nb\<lparr>parent := None, left := Some y\<rparr>)" by (simp add: h5_def)
  have h5y: "h5 y = Some (ny\<lparr>parent := Some b, right := left nb\<rparr>)"
  proof -
    have "Some y \<noteq> left nb" using lrl ne by (cases rl) auto
    then show ?thesis using ne
      by (auto simp: h5_def h4_def h3_def split: option.splits)
  qed
  have lrr: "rep h5 (right nb) (Some b) rr"
  proof -
    have "\<And>x. x \<in> set (addrs rr) \<Longrightarrow> h5 x = ?h x"
    proof -
      fix x assume x: "x \<in> set (addrs rr)"
      then have "Some x \<noteq> left nb" using lrl ne by (cases rl) auto
      then show "h5 x = ?h x" using x ne by (intro out) auto
    qed
    then show ?thesis using nb(6) by (subst rep_cong[where h = "?h"]) auto
  qed
  have ll: "rep h5 (left ny) (Some y) l"
  proof -
    have "\<And>x. x \<in> set (addrs l) \<Longrightarrow> h5 x = ?h x"
    proof -
      fix x assume x: "x \<in> set (addrs l)"
      then have "Some x \<noteq> left nb" using lrl ne by (cases rl) auto
      then show "h5 x = ?h x" using x ne by (intro out) auto
    qed
    then show ?thesis using ny(7) by (subst rep_cong[where h = "?h"]) auto
  qed
  have rlr': "rep h5 (left nb) (Some y) rl"
  proof (rule rep_reparent[OF nb(7) ne(12)])
    show "\<forall>x. x \<in> set (addrs rl) \<and> Some x \<noteq> left nb \<longrightarrow> h5 x = ?h x"
      using ne by (auto intro!: out)
    show "case left nb of None \<Rightarrow> True
          | Some c \<Rightarrow> \<exists>n. ?h c = Some n \<and> h5 c = Some (n\<lparr>parent := Some y\<rparr>)"
    proof (cases "left nb")
      case None
      then show ?thesis by simp
    next
      case (Some c)
      then have "c \<in> set (addrs rl)" using lrl by (cases rl) auto
      then have c: "c \<noteq> y" "c \<noteq> b" "?h c \<noteq> None" using ne rep_dom[OF nb(7)] by auto
      then show ?thesis using Some by (auto simp: h5_def h4_def)
    qed
  qed
  have rep5: "rep h5 (Some b) None (Node (Node l y k v d rl) b kb vb db rr)"
    using h5b h5y nb ny lrr ll rlr' by simp
  have d5: "distinct (addrs (Node (Node l y k v d rl) b kb vb db rr))" using dist by auto
  have pre: "case None :: addr option of None \<Rightarrow> (0::int) = 0
     | Some q' \<Rightarrow> q' \<notin> set (addrs (Node (Node l y k v d rl) b kb vb db rr)) \<and>
        (\<exists>qn''. h5 q' = Some qn'' \<and> 0 = height qn'' + 1)"
    by simp
  from UpdateSubtreeHeights_rep[OF rep5 d5 pre]
  obtain h6 where h6: "UpdateSubtreeHeights h5 (Some b) = Some h6"
    "rep h6 (Some b) None (set_depths 0 (Node (Node l y k v d rl) b kb vb db rr))"
    "\<forall>x. x \<notin> set (addrs (Node (Node l y k v d rl) b kb vb db rr)) \<longrightarrow> h6 x = h5 x"
    by blast
  have res: "RotateRootLeft s = Some (s\<lparr>mRoot := Some b, heap := h6\<rparr>)"
    unfolding RotateRootLeft_def
    using root ny(1) lny s1 s2 h2b s3 h3y s4 s5 h6(1)
    by simp
  have fr: "\<forall>x. x \<notin> set (addrs (Node l y k v d (Node rl b kb vb db rr))) \<longrightarrow> h6 x = ?h x"
  proof (intro allI impI)
    fix x assume x: "x \<notin> set (addrs (Node l y k v d (Node rl b kb vb db rr)))"
    then have "Some x \<noteq> left nb" using lrl by (cases rl) auto
    then have "h5 x = ?h x" using x by (intro out) auto
    moreover have "h6 x = h5 x" using h6(3) x by auto
    ultimately show "h6 x = ?h x" by simp
  qed
  show ?thesis
    using res h6(2) fr by simp
qed


lemma items_rotL_root [simp]: "items (rotL_root d' t) = items t"
  by (induction d' t rule: rotL_root.induct) auto

lemma items_rotL_at: "items (rotL_at y t) = items t"
proof (cases "y \<in> set (addrs t)")
  case True
  then show ?thesis unfolding rotL_at_def by (intro items_repl) auto
next
  case False
  have "\<And>u. repl y u t = t" using False by (induction t) auto
  then show ?thesis by (simp add: rotL_at_def)
qed

lemma RotateLeft_repr:
  assumes l: "repr s t"
    and sub: "sub_at y t = Node l y k v d (Node rl b kb vb db rr)"
  shows "\<exists>s'. RotateLeft y s = Some s' \<and> repr s' (rotL_at y t)
           \<and> brk s' = brk s \<and> log s' = log s @ [RotL y]
           \<and> (\<forall>x. x \<notin> set (addrs t) \<longrightarrow> heap s' x = heap s x)"
proof -
  let ?u = "Node l y k v d (Node rl b kb vb db rr)"
  have rp: "rep (heap s) (mRoot s) None t" and dist: "distinct (addrs t)"
    and bound: "\<forall>a. heap s a \<noteq> None \<longrightarrow> a < brk s"
    and sz: "size_m s = of_nat (length (addrs t))"
    using l by (auto simp: repr_def)
  have yin: "y \<in> set (addrs t)" using sub_at_Node_in[OF sub] by simp
  have it: "items (rotL_at y t) = items t" by (rule items_rotL_at)
  have ad: "addrs (rotL_at y t) = addrs t" by (simp add: set_addrs_items it)
  have du: "distinct (addrs ?u)" using distinct_sub_at[OF dist, of y] sub by simp
  have usub: "set (addrs ?u) \<subseteq> set (addrs t)" using addrs_sub_at[of y t] sub by simp
  show ?thesis
  proof (cases "mRoot s = Some y")
    case True
    then have "root_of t = Some y" using rep_root[OF rp] by simp
    then have t: "t = ?u" using sub by (cases t) auto
    let ?s = "s\<lparr>log := log s @ [RotL y]\<rparr>"
    have "rep (heap ?s) (Some y) None ?u" using rp True t by simp
    from RotateRootLeft_rep[OF _ this du, simplified, OF True]
    obtain s' where s': "RotateRootLeft ?s = Some s'" "mRoot s' = Some b"
      "rep (heap s') (Some b) None (rotL_root 0 ?u)"
      "\<forall>x. x \<notin> set (addrs ?u) \<longrightarrow> heap s' x = heap s x"
      "brk s' = brk s" "size_m s' = size_m s" "log s' = log s @ [RotL y]"
      by auto
    have rt: "rotL_at y t = rotL_root 0 ?u" by (simp add: rotL_at_def t)
    have res: "RotateLeft y s = Some s'"
      using s'(1) True by (simp add: RotateLeft_def Let_def)
    have b': "\<forall>a. heap s' a \<noteq> None \<longrightarrow> a < brk s'"
    proof (intro allI impI)
      fix a assume a: "heap s' a \<noteq> None"
      show "a < brk s'"
      proof (cases "a \<in> set (addrs ?u)")
        case True
        then have "heap s a \<noteq> None" using rep_dom[OF rp] usub by auto
        then show ?thesis using bound s'(5) by simp
      next
        case False
        then show ?thesis using a s'(4,5) bound by simp
      qed
    qed
    have "repr s' (rotL_at y t)"
      unfolding repr_def using s'(2,3,6) b' ad dist sz rt by simp
    moreover have "\<forall>x. x \<notin> set (addrs t) \<longrightarrow> heap s' x = heap s x" using s'(4) t by simp
    ultimately show ?thesis using res s'(5,7) by blast
  next
    case False
    from rep_context[OF rp dist yin, of "0"] False
    obtain q qn where q: "par_of y None t = Some q" "q \<in> set (addrs t)" "q \<notin> set (addrs (sub_at y t))"
      "heap s q = Some qn" "height qn + 1 = pdepth y 0 t" "left qn = Some y \<or> right qn = Some y"
      and ry: "rep (heap s) (Some y) (par_of y None t) (sub_at y t)"
      by auto
    have nroot: "Some y \<noteq> mRoot s" using False by auto
    have ry': "rep (heap s) (Some y) (Some q) ?u" using ry q(1) sub by simp
    have qout: "q \<notin> set (addrs ?u)" using q(3) sub by simp
    from RotateLeft_local[OF nroot q(4,6) ry' du qout]
    obtain s' where s': "RotateLeft y s = Some s'"
      "heap s' q = Some (if left qn = Some y then qn\<lparr>left := Some b\<rparr> else qn\<lparr>right := Some b\<rparr>)"
      "rep (heap s') (Some b) (Some q) (rotL_root (height qn + 1) ?u)"
      "\<forall>x. x \<notin> set (addrs ?u) \<and> x \<noteq> q \<longrightarrow> heap s' x = heap s x"
      "mRoot s' = mRoot s" "brk s' = brk s" "size_m s' = size_m s" "log s' = log s @ [RotL y]"
      by blast
    have au: "set (addrs (rotL_root (height qn + 1) ?u)) \<subseteq> set (addrs (sub_at y t))"
      by (auto simp: sub)
    have fr: "\<forall>b. b \<notin> set (addrs (sub_at y t)) \<and> b \<noteq> q \<longrightarrow> heap s' b = heap s b"
      using s'(4) sub by simp
    have "rep (heap s') (mRoot s) None (repl y (rotL_root (height qn + 1) ?u) t)"
      using rep_repl[OF rp dist yin _ q(1) q(4) s'(2) s'(3) au fr] False by simp
    then have rp': "rep (heap s') (mRoot s') None (rotL_at y t)"
      by (simp add: rotL_at_def q(5) sub s'(5))
    have b': "\<forall>a. heap s' a \<noteq> None \<longrightarrow> a < brk s'"
    proof (intro allI impI)
      fix a assume a: "heap s' a \<noteq> None"
      show "a < brk s'"
      proof (cases "a \<in> set (addrs ?u) \<or> a = q")
        case True
        then have "heap s a \<noteq> None" using rep_dom[OF rp] usub q(2) by auto
        then show ?thesis using bound s'(6) by simp
      next
        case False
        then show ?thesis using a s'(4,6) bound by simp
      qed
    qed
    have "repr s' (rotL_at y t)"
      unfolding repr_def using rp' s'(7) b' ad dist sz by simp
    moreover have "\<forall>x. x \<notin> set (addrs t) \<longrightarrow> heap s' x = heap s x"
      using s'(4) usub q(2) by blast
    ultimately show ?thesis using s'(1,6,8) by blast
  qed
qed


section \<open>Rebalancing\<close>

lemma sub_at_sub_at:
  "distinct (addrs t) \<Longrightarrow> b \<in> set (addrs (sub_at y t)) \<Longrightarrow> sub_at b (sub_at y t) = sub_at b t"
proof (induction t)
  case Leaf
  then show ?case by simp
next
  case (Node l a k v d r)
  show ?case
  proof (cases "a = y")
    case True
    then show ?thesis by simp
  next
    case ay: False
    show ?thesis
    proof (cases "y \<in> set (addrs l)")
      case True
      then have bl: "b \<in> set (addrs (sub_at y l))" using Node.prems(2) ay by simp
      then have "b \<in> set (addrs l)" using addrs_sub_at[of y l] by auto
      then show ?thesis using Node ay True bl by auto
    next
      case False
      then have br: "b \<in> set (addrs (sub_at y r))" using Node.prems(2) ay by simp
      then have "b \<in> set (addrs r)" using addrs_sub_at[of y r] by auto
      then show ?thesis using Node ay False br by auto
    qed
  qed
qed

lemma repl_root: "root_of t = Some y \<Longrightarrow> repl y u t = u"
  by (cases t) auto

lemma addrs_repl:
  "y \<in> set (addrs t) \<Longrightarrow> set (addrs u) = set (addrs (sub_at y t)) \<Longrightarrow>
   set (addrs (repl y u t)) = set (addrs t)"
  by (induction t) auto

lemma sub_at_repl_inside:
  assumes "distinct (addrs t)" and "sub_at y t = Node l y k v d r"
    and "b \<in> set (addrs l) \<union> set (addrs r)"
    and "set (addrs u) = set (addrs (sub_at b t))"
  shows "sub_at y (repl b u t) = repl b u (Node l y k v d r)"
  using assms
proof (induction t)
  case Leaf
  then show ?case by simp
next
  case (Node l1 a k1 v1 d1 r1)
  have yin: "y \<in> set (addrs (Node l1 a k1 v1 d1 r1))" using sub_at_Node_in[OF Node.prems(2)] by simp
  have bsub: "b \<in> set (addrs (sub_at y (Node l1 a k1 v1 d1 r1)))" using Node.prems(2,3) by auto
  show ?case
  proof (cases "a = y")
    case True
    then show ?thesis using Node.prems by auto
  next
    case ay: False
    show ?thesis
    proof (cases "y \<in> set (addrs l1)")
      case True
      then have s: "sub_at y l1 = Node l y k v d r" using Node.prems(2) ay by simp
      have bl: "b \<in> set (addrs l1)" using bsub ay True addrs_sub_at[of y l1] by auto
      have ab: "a \<noteq> b" using bl Node.prems(1) by auto
      have u: "set (addrs u) = set (addrs (sub_at b l1))" using Node.prems(4) ab bl by simp
      have ih: "sub_at y (repl b u l1) = repl b u (Node l y k v d r)"
        using Node.IH(1)[OF _ s Node.prems(3) u] Node.prems(1) by simp
      have "set (addrs (repl b u l1)) = set (addrs l1)" using addrs_repl[OF bl u] .
      then show ?thesis using ay ab bl True ih by simp
    next
      case False
      then have s: "sub_at y r1 = Node l y k v d r" using Node.prems(2) ay by simp
      have yr: "y \<in> set (addrs r1)" using yin ay False by auto
      have br: "b \<in> set (addrs r1)" using bsub ay False addrs_sub_at[of y r1] by auto
      have ab: "a \<noteq> b" using br Node.prems(1) by auto
      have bnl: "b \<notin> set (addrs l1)" using br Node.prems(1) by auto
      have u: "set (addrs u) = set (addrs (sub_at b r1))" using Node.prems(4) ab bnl by simp
      have ih: "sub_at y (repl b u r1) = repl b u (Node l y k v d r)"
        using Node.IH(2)[OF _ s Node.prems(3) u] Node.prems(1) by simp
      show ?thesis using ay ab bnl False ih by simp
    qed
  qed
qed

lemma sub_at_child:
  assumes "distinct (addrs t)" and "sub_at y t = Node l y k v d r"
  shows "root_of l = Some b \<Longrightarrow> sub_at b t = l" and "root_of r = Some b \<Longrightarrow> sub_at b t = r"
proof -
  have d: "distinct (addrs (Node l y k v d r))" using distinct_sub_at[OF assms(1), of y] assms(2) by simp
  {
    assume b: "root_of l = Some b"
    then obtain l1 k1 v1 d1 r1 where l: "l = Node l1 b k1 v1 d1 r1" by (cases l) auto
    have "b \<in> set (addrs (sub_at y t))" using assms(2) l by simp
    from sub_at_sub_at[OF assms(1) this] d show "sub_at b t = l" by (auto simp: assms(2) l)
  }
  {
    assume b: "root_of r = Some b"
    then obtain l1 k1 v1 d1 r1 where r: "r = Node l1 b k1 v1 d1 r1" by (cases r) auto
    have "b \<in> set (addrs (sub_at y t))" using assms(2) r by simp
    from sub_at_sub_at[OF assms(1) this] d show "sub_at b t = r" by (auto simp: assms(2) r)
  }
qed

lemma ht_ge: "ht t \<ge> - 1"
  by (induction t) auto

lemma ht_Leaf_iff: "ht t = - 1 \<longleftrightarrow> t = Leaf"
proof (cases t)
  case Leaf
  then show ?thesis by simp
next
  case (Node l a k v d r)
  have "ht l \<ge> - 1" "ht r \<ge> - 1" by (rule ht_ge)+
  then show ?thesis using Node by (simp add: max_def)
qed


lemma left_heavy_repr:
  assumes r: "repr s t"
    and sub: "sub_at y t = Node l y k v d r"
    and heavy: "ht l - ht r > 1"
  shows "\<exists>s'. do {
             b \<leftarrow> root_of l;
             ln \<leftarrow> heap s b;
             hll \<leftarrow> GetSubtreeHeight (heap s) (left ln);
             hlr \<leftarrow> GetSubtreeHeight (heap s) (right ln);
             if hll \<ge> hlr then RotateRight y s
             else do { s' \<leftarrow> RotateLeft b s; RotateRight y s' }
           } = Some s'
         \<and> repr s' (fix_left_heavy y t) \<and> brk s' = brk s
         \<and> log s' = log s @ events_left_heavy y t
         \<and> (\<forall>x. x \<notin> set (addrs t) \<longrightarrow> heap s' x = heap s x)"
proof -
  have rp: "rep (heap s) (mRoot s) None t" and dist: "distinct (addrs t)"
    using r by (auto simp: repr_def)
  have yin: "y \<in> set (addrs t)" using sub_at_Node_in[OF sub] by simp
  have "ht r \<ge> - 1" by (rule ht_ge)
  then have "l \<noteq> Leaf" using heavy by auto
  then obtain ll b kb vb db lr where l: "l = Node ll b kb vb db lr" by (cases l) auto
  have ry: "rep (heap s) (Some y) (par_of y None t) (Node l y k v d r)"
    using rep_context[OF rp dist yin, of 0] sub by simp
  then obtain ny where ny: "heap s y = Some ny" "rep (heap s) (left ny) (Some y) l" by auto
  then obtain nb where nb: "heap s b = Some nb" "rep (heap s) (left nb) (Some b) ll"
    "rep (heap s) (right nb) (Some b) lr" by (auto simp: l)
  have hll: "GetSubtreeHeight (heap s) (left nb) = Some (ht ll)"
    using GetSubtreeHeight_rep[OF nb(2)] .
  have hlr: "GetSubtreeHeight (heap s) (right nb) = Some (ht lr)"
    using GetSubtreeHeight_rep[OF nb(3)] .
  have sub': "sub_at y t = Node (Node ll b kb vb db lr) y k v d r" using sub l by simp
  show ?thesis
  proof (cases "ht ll \<ge> ht lr")
    case True
    from RotateRight_repr[OF r sub']
    obtain s' where s': "RotateRight y s = Some s'" "repr s' (rotR_at y t)"
      "brk s' = brk s" "log s' = log s @ [RotR y]"
      "\<forall>x. x \<notin> set (addrs t) \<longrightarrow> heap s' x = heap s x" by blast
    have f: "fix_left_heavy y t = rotR_at y t" "events_left_heavy y t = [RotR y]"
      using True by (simp_all add: fix_left_heavy_def events_left_heavy_def sub')
    show ?thesis using s' True by (simp add: l nb(1) hll hlr f)
  next
    case False
    have "ht ll \<ge> - 1" by (rule ht_ge)
    then have "lr \<noteq> Leaf" using False by auto
    then obtain lrl c kc vc dc lrr where lr: "lr = Node lrl c kc vc dc lrr" by (cases lr) auto
    have sb: "sub_at b t = Node ll b kb vb db (Node lrl c kc vc dc lrr)"
      using sub_at_child(1)[OF dist sub, of b] by (simp add: l lr)
    from RotateLeft_repr[OF r sb]
    obtain s1 where s1: "RotateLeft b s = Some s1" "repr s1 (rotL_at b t)"
      "brk s1 = brk s" "log s1 = log s @ [RotL b]"
      "\<forall>x. x \<notin> set (addrs t) \<longrightarrow> heap s1 x = heap s x" by blast
    define u where "u = rotL_root (pdepth b 0 t) (sub_at b t)"
    have ru: "rotL_at b t = repl b u t" by (simp add: rotL_at_def u_def)
    have su: "set (addrs u) = set (addrs (sub_at b t))"
      by (simp add: u_def set_addrs_items)
    have dy: "distinct (addrs (Node l y k v d r))" using distinct_sub_at[OF dist, of y] sub by simp
    have bny: "b \<noteq> y" using dy l by auto
    have "sub_at y (rotL_at b t) = repl b u (Node l y k v d r)"
      unfolding ru using sub_at_repl_inside[OF dist sub _ su] l by simp
    also have "\<dots> = Node u y k v d r" using bny dy by (auto simp: l)
    finally have sy: "sub_at y (rotL_at b t) = Node u y k v d r" .
    obtain ul ub ukb uvb udb ulr where uu: "u = Node ul ub ukb uvb udb ulr"
      by (cases u) (auto simp: u_def sb)
    from RotateRight_repr[OF s1(2) sy[unfolded uu]]
    obtain s' where s': "RotateRight y s1 = Some s'" "repr s' (rotR_at y (rotL_at b t))"
      "brk s' = brk s1" "log s' = log s1 @ [RotR y]"
      "\<forall>x. x \<notin> set (addrs (rotL_at b t)) \<longrightarrow> heap s' x = heap s1 x" by blast
    have "addrs (rotL_at b t) = addrs t" by (simp add: set_addrs_items items_rotL_at)
    then have fr: "\<forall>x. x \<notin> set (addrs t) \<longrightarrow> heap s' x = heap s x" using s'(5) s1(5) by simp
    have f: "fix_left_heavy y t = rotR_at y (rotL_at b t)" "events_left_heavy y t = [RotL b, RotR y]"
      using False by (simp_all add: fix_left_heavy_def events_left_heavy_def sub')
    show ?thesis using s'(1-4) s1(1-4) fr False by (simp add: l nb(1) hll hlr f)
  qed
qed


lemma right_heavy_repr:
  assumes l: "repr s t"
    and sub: "sub_at y t = Node l y k v d r"
    and heavy: "ht l - ht r < - 1"
  shows "\<exists>s'. do {
             b \<leftarrow> root_of r;
             ln \<leftarrow> heap s b;
             hll \<leftarrow> GetSubtreeHeight (heap s) (right ln);
             hlr \<leftarrow> GetSubtreeHeight (heap s) (left ln);
             if hll \<ge> hlr then RotateLeft y s
             else do { s' \<leftarrow> RotateRight b s; RotateLeft y s' }
           } = Some s'
         \<and> repr s' (fix_right_heavy y t) \<and> brk s' = brk s
         \<and> log s' = log s @ events_right_heavy y t
         \<and> (\<forall>x. x \<notin> set (addrs t) \<longrightarrow> heap s' x = heap s x)"
proof -
  have rp: "rep (heap s) (mRoot s) None t" and dist: "distinct (addrs t)"
    using l by (auto simp: repr_def)
  have yin: "y \<in> set (addrs t)" using sub_at_Node_in[OF sub] by simp
  have "ht l \<ge> - 1" by (rule ht_ge)
  then have "r \<noteq> Leaf" using heavy by auto
  then obtain rr b kb vb db rl where r: "r = Node rl b kb vb db rr" by (cases r) auto
  have ry: "rep (heap s) (Some y) (par_of y None t) (Node l y k v d r)"
    using rep_context[OF rp dist yin, of 0] sub by simp
  then obtain ny where ny: "heap s y = Some ny" "rep (heap s) (right ny) (Some y) r" by auto
  then obtain nb where nb: "heap s b = Some nb" "rep (heap s) (right nb) (Some b) rr"
    "rep (heap s) (left nb) (Some b) rl" by (auto simp: r)
  have hll: "GetSubtreeHeight (heap s) (right nb) = Some (ht rr)"
    using GetSubtreeHeight_rep[OF nb(2)] .
  have hlr: "GetSubtreeHeight (heap s) (left nb) = Some (ht rl)"
    using GetSubtreeHeight_rep[OF nb(3)] .
  have sub': "sub_at y t = Node l y k v d (Node rl b kb vb db rr)" using sub r by simp
  show ?thesis
  proof (cases "ht rr \<ge> ht rl")
    case True
    from RotateLeft_repr[OF l sub']
    obtain s' where s': "RotateLeft y s = Some s'" "repr s' (rotL_at y t)"
      "brk s' = brk s" "log s' = log s @ [RotL y]"
      "\<forall>x. x \<notin> set (addrs t) \<longrightarrow> heap s' x = heap s x" by blast
    have f: "fix_right_heavy y t = rotL_at y t" "events_right_heavy y t = [RotL y]"
      using True by (simp_all add: fix_right_heavy_def events_right_heavy_def sub')
    show ?thesis using s' True by (simp add: r nb(1) hll hlr f)
  next
    case False
    have "ht rr \<ge> - 1" by (rule ht_ge)
    then have "rl \<noteq> Leaf" using False by auto
    then obtain rlr c kc vc dc rll where rl: "rl = Node rll c kc vc dc rlr" by (cases rl) auto
    have sb: "sub_at b t = Node (Node rll c kc vc dc rlr) b kb vb db rr"
      using sub_at_child(2)[OF dist sub, of b] by (simp add: r rl)
    from RotateRight_repr[OF l sb]
    obtain s1 where s1: "RotateRight b s = Some s1" "repr s1 (rotR_at b t)"
      "brk s1 = brk s" "log s1 = log s @ [RotR b]"
      "\<forall>x. x \<notin> set (addrs t) \<longrightarrow> heap s1 x = heap s x" by blast
    define u where "u = rotR_root (pdepth b 0 t) (sub_at b t)"
    have ru: "rotR_at b t = repl b u t" by (simp add: rotR_at_def u_def)
    have su: "set (addrs u) = set (addrs (sub_at b t))"
      by (simp add: u_def set_addrs_items)
    have dy: "distinct (addrs (Node l y k v d r))" using distinct_sub_at[OF dist, of y] sub by simp
    have bny: "b \<noteq> y" using dy r by auto
    have "sub_at y (rotR_at b t) = repl b u (Node l y k v d r)"
      unfolding ru using sub_at_repl_inside[OF dist sub _ su] r by simp
    also have "\<dots> = Node l y k v d u" using bny dy by (auto simp: r)
    finally have sy: "sub_at y (rotR_at b t) = Node l y k v d u" .
    obtain ul ub ukb uvb udb ulr where uu: "u = Node ul ub ukb uvb udb ulr"
      by (cases u) (auto simp: u_def sb)
    from RotateLeft_repr[OF s1(2) sy[unfolded uu]]
    obtain s' where s': "RotateLeft y s1 = Some s'" "repr s' (rotL_at y (rotR_at b t))"
      "brk s' = brk s1" "log s' = log s1 @ [RotL y]"
      "\<forall>x. x \<notin> set (addrs (rotR_at b t)) \<longrightarrow> heap s' x = heap s1 x" by blast
    have "addrs (rotR_at b t) = addrs t" by (simp add: set_addrs_items items_rotR_at)
    then have fr: "\<forall>x. x \<notin> set (addrs t) \<longrightarrow> heap s' x = heap s x" using s'(5) s1(5) by simp
    have f: "fix_right_heavy y t = rotL_at y (rotR_at b t)" "events_right_heavy y t = [RotR b, RotL y]"
      using False by (simp_all add: fix_right_heavy_def events_right_heavy_def sub')
    show ?thesis using s'(1-4) s1(1-4) fr False by (simp add: r nb(1) hll hlr f)
  qed
qed


lemma repr_log [simp]: "repr (s\<lparr>log := x\<rparr>) t = repr s t"
  by (simp add: repr_def)

lemma items_fix_left_heavy [simp]: "items (fix_left_heavy y t) = items t"
  by (simp add: fix_left_heavy_def items_rotR_at items_rotL_at split: tree.splits)

lemma items_fix_right_heavy [simp]: "items (fix_right_heavy y t) = items t"
  by (simp add: fix_right_heavy_def items_rotR_at items_rotL_at split: tree.splits)

lemma items_rebalance_at [simp]: "items (rebalance_at y t) = items t"
  by (simp add: rebalance_at_def)

lemma items_bal_abs [simp]: "items (bal_abs nodes ins t) = items t"
  by (induction nodes arbitrary: t) auto

lemma GetSubtreeBalance_rep:
  "rep h (Some y) par (Node l y k v d r) \<Longrightarrow> GetSubtreeBalance h (Some y) = Some (ht l - ht r)"
  by (auto simp: GetSubtreeBalance_def GetSubtreeHeight_rep)

lemma BalanceTree_repr:
  assumes "repr s t" and "set nodes \<subseteq> set (addrs t)"
  shows "\<exists>s'. BalanceTree nodes ins s = Some s' \<and> repr s' (bal_abs nodes ins t)
           \<and> brk s' = brk s \<and> log s' = log s @ bal_events nodes ins t
           \<and> (\<forall>x. x \<notin> set (addrs t) \<longrightarrow> heap s' x = heap s x)"
  using assms
proof (induction nodes arbitrary: s t)
  case Nil
  then show ?case by simp
next
  case (Cons y nodes)
  let ?s = "s\<lparr>log := log s @ [Examine y]\<rparr>"
  have r: "repr ?s t" using Cons.prems(1) by simp
  have rp: "rep (heap ?s) (mRoot ?s) None t" and dist: "distinct (addrs t)"
    using r by (auto simp: repr_def)
  have yin: "y \<in> set (addrs t)" using Cons.prems(2) by simp
  have "root_of (sub_at y t) = Some y" using sub_at_root[OF yin] .
  then obtain l k v d r' where sub: "sub_at y t = Node l y k v d r'"
    by (cases "sub_at y t") auto
  have ry: "rep (heap ?s) (Some y) (par_of y None t) (Node l y k v d r')"
    using rep_context[OF rp dist yin, of 0] sub by simp
  then obtain yn where yn: "heap ?s y = Some yn" "rep (heap ?s) (left yn) (Some y) l"
    "rep (heap ?s) (right yn) (Some y) r'" by auto
  have lyn: "left yn = root_of l" and ryn: "right yn = root_of r'"
    using rep_root[OF yn(2)] rep_root[OF yn(3)] by simp_all
  have gb: "GetSubtreeBalance (heap ?s) (Some y) = Some (ht l - ht r')"
    using GetSubtreeBalance_rep[OF ry] .
  have gl: "GetSubtreeHeight (heap ?s) (root_of l) = Some (ht l)"
    using GetSubtreeHeight_rep[OF yn(2)] lyn by simp
  have gr: "GetSubtreeHeight (heap ?s) (root_of r') = Some (ht r')"
    using GetSubtreeHeight_rep[OF yn(3)] ryn by simp
  have bo: "bal_of y t = ht l - ht r'" by (simp add: bal_of_def sub)
  show ?case
  proof (cases "\<bar>ht l - ht r'\<bar> \<le> 1")
    case True
    from Cons.IH[OF r] Cons.prems(2)
    obtain s' where s': "BalanceTree nodes ins ?s = Some s'" "repr s' (bal_abs nodes ins t)"
      "brk s' = brk ?s" "log s' = log ?s @ bal_events nodes ins t"
      "\<forall>x. x \<notin> set (addrs t) \<longrightarrow> heap s' x = heap ?s x" by auto
    show ?thesis using True s' yn(1) gb gl gr bo lyn ryn
      by (simp add: Let_def)
  next
    case False
    show ?thesis
    proof (cases "ht l - ht r' > 1")
      case True
      from left_heavy_repr[OF r sub True]
      obtain s1 where s1: "do {
             b \<leftarrow> root_of l;
             ln \<leftarrow> heap ?s b;
             hll \<leftarrow> GetSubtreeHeight (heap ?s) (left ln);
             hlr \<leftarrow> GetSubtreeHeight (heap ?s) (right ln);
             if hll \<ge> hlr then RotateRight y ?s
             else do { s' \<leftarrow> RotateLeft b ?s; RotateRight y s' }
           } = Some s1"
        "repr s1 (fix_left_heavy y t)" "brk s1 = brk ?s"
        "log s1 = log ?s @ events_left_heavy y t"
        "\<forall>x. x \<notin> set (addrs t) \<longrightarrow> heap s1 x = heap ?s x" by blast
      have ra: "rebalance_at y t = fix_left_heavy y t" "rebalance_events y t = events_left_heavy y t"
        using True bo by (simp_all add: rebalance_at_def rebalance_events_def)
      show ?thesis
      proof (cases ins)
        case T: True
        show ?thesis using False True T s1 yn(1) gb gl gr bo lyn ryn ra
          by (simp add: Let_def del: Option.bind_assoc)
      next
        case F: False
        have sub': "set nodes \<subseteq> set (addrs (fix_left_heavy y t))"
          using Cons.prems(2) by (simp add: set_addrs_items)
        from Cons.IH[OF s1(2) sub']
        obtain s' where s': "BalanceTree nodes ins s1 = Some s'"
          "repr s' (bal_abs nodes ins (fix_left_heavy y t))"
          "brk s' = brk s1" "log s' = log s1 @ bal_events nodes ins (fix_left_heavy y t)"
          "\<forall>x. x \<notin> set (addrs (fix_left_heavy y t)) \<longrightarrow> heap s' x = heap s1 x" by auto
        have "addrs (fix_left_heavy y t) = addrs t" by (simp add: set_addrs_items)
        then have fr: "\<forall>x. x \<notin> set (addrs t) \<longrightarrow> heap s' x = heap s x" using s'(5) s1(5) by simp
        show ?thesis using False True F s1(1-4) s'(1-4) fr yn(1) gb gl gr bo lyn ryn ra
          by (simp add: Let_def del: Option.bind_assoc)
      qed
    next
      case nl: False
      then have lt: "ht l - ht r' < - 1" using False by linarith
      from right_heavy_repr[OF r sub lt]
      obtain s1 where s1: "do {
             b \<leftarrow> root_of r';
             rn \<leftarrow> heap ?s b;
             hrr \<leftarrow> GetSubtreeHeight (heap ?s) (right rn);
             hrl \<leftarrow> GetSubtreeHeight (heap ?s) (left rn);
             if hrr \<ge> hrl then RotateLeft y ?s
             else do { s' \<leftarrow> RotateRight b ?s; RotateLeft y s' }
           } = Some s1"
        "repr s1 (fix_right_heavy y t)" "brk s1 = brk ?s"
        "log s1 = log ?s @ events_right_heavy y t"
        "\<forall>x. x \<notin> set (addrs t) \<longrightarrow> heap s1 x = heap ?s x" by blast
      have ra: "rebalance_at y t = fix_right_heavy y t" "rebalance_events y t = events_right_heavy y t"
        using nl lt bo by (simp_all add: rebalance_at_def rebalance_events_def)
      show ?thesis
      proof (cases ins)
        case T: True
        show ?thesis using False nl lt T s1 yn(1) gb gl gr bo lyn ryn ra
          by (simp add: Let_def del: Option.bind_assoc)
      next
        case F: False
        have sub': "set nodes \<subseteq> set (addrs (fix_right_heavy y t))"
          using Cons.prems(2) by (simp add: set_addrs_items)
        from Cons.IH[OF s1(2) sub']
        obtain s' where s': "BalanceTree nodes ins s1 = Some s'"
          "repr s' (bal_abs nodes ins (fix_right_heavy y t))"
          "brk s' = brk s1" "log s' = log s1 @ bal_events nodes ins (fix_right_heavy y t)"
          "\<forall>x. x \<notin> set (addrs (fix_right_heavy y t)) \<longrightarrow> heap s' x = heap s1 x" by auto
        have "addrs (fix_right_heavy y t) = addrs t" by (simp add: set_addrs_items)
        then have fr: "\<forall>x. x \<notin> set (addrs t) \<longrightarrow> heap s' x = heap s x" using s'(5) s1(5) by simp
        show ?thesis using False nl lt F s1(1-4) s'(1-4) fr yn(1) gb gl gr bo lyn ryn ra
          by (simp add: Let_def del: Option.bind_assoc)
      qed
    qed
  qed
qed


section \<open>The find-or-insert accessor\<close>

lemma root_of_ins0: "root_of (ins0 a' x v' d' t) = (if t = Leaf then Some a' else root_of t)"
  by (cases t) auto

lemma keys_ins0: "x \<notin> set (keys t) \<Longrightarrow> set (keys (ins0 a' x v' d' t)) = insert x (set (keys t))"
  by (induction t arbitrary: d') auto

lemma length_addrs_ins0:
  "x \<notin> set (keys t) \<Longrightarrow> length (addrs (ins0 a' x v' d' t)) = Suc (length (addrs t))"
  by (induction t arbitrary: d') auto

lemma distinct_ins0:
  "distinct (addrs t) \<Longrightarrow> a' \<notin> set (addrs t) \<Longrightarrow> x \<notin> set (keys t) \<Longrightarrow>
   distinct (addrs (ins0 a' x v' d' t))"
  by (induction t arbitrary: d') (auto simp: addrs_ins0)

lemma items_ins0:
  "x \<notin> set (keys t) \<Longrightarrow> set (items (ins0 a' x v' d' t)) = insert (a', x, v') (set (items t))"
  by (induction t arbitrary: d') auto

lemma bst_ins0: "bst t \<Longrightarrow> x \<notin> set (keys t) \<Longrightarrow> bst (ins0 a' x v' d' t)"
proof (induction t arbitrary: d')
  case Leaf
  then show ?case by (simp add: bst_def)
next
  case (Node l a k v d r)
  have bl: "bst l" and br: "bst r" and lt: "\<forall>y\<in>set (keys l). y < k" and gt: "\<forall>y\<in>set (keys r). k < y"
    and lr: "\<forall>y\<in>set (keys l). \<forall>z\<in>set (keys r). y < z"
    using Node.prems(1) by (auto simp: bst_def sorted_wrt_append)
  have xk: "x \<noteq> k" "x \<notin> set (keys l)" "x \<notin> set (keys r)" using Node.prems(2) by auto
  show ?case
  proof (cases "x < k")
    case True
    have "bst (ins0 a' x v' (d + 1) l)" using Node.IH(1)[OF bl xk(2)] .
    then show ?thesis using True lt gt lr br keys_ins0[OF xk(2), of a' v' "d + 1"]
      by (auto simp: bst_def sorted_wrt_append)
  next
    case False
    then have g: "k < x" using xk(1) by simp
    have "bst (ins0 a' x v' (d + 1) r)" using Node.IH(2)[OF br xk(3)] .
    then show ?thesis using False g lt gt lr bl keys_ins0[OF xk(3), of a' v' "d + 1"]
      by (auto simp: bst_def sorted_wrt_append)
  qed
qed

lemma path_subset: "set (path x t) \<subseteq> set (addrs t)"
  by (induction t) auto

lemma bst_items_unique:
  "bst t \<Longrightarrow> (a, x, v) \<in> set (items t) \<Longrightarrow> (a', x, v') \<in> set (items t) \<Longrightarrow> a' = a \<and> v' = v"
proof -
  assume b: "bst t" and m: "(a, x, v) \<in> set (items t)" "(a', x, v') \<in> set (items t)"
  have "distinct (map (fst \<circ> snd) (items t))"
    using b unfolding bst_def keys_items by (simp add: strict_sorted_iff)
  then have "inj_on (fst \<circ> snd) (set (items t))" by (simp add: distinct_map)
  from inj_onD[OF this _ m] show ?thesis by simp
qed

lemma operator_subscript_absent:
  assumes r: "repr s t" and b: "bst t" and x: "x \<notin> set (keys t)"
  shows "\<exists>s'. operator_subscript dflt x s = Some (brk s, s')
           \<and> repr s' (insert_abs (brk s) x dflt t)
           \<and> brk s' = Suc (brk s) \<and> size_m s' = size_m s + 1
           \<and> log s' = log s @ bal_events (rev (path x t)) True (ins0 (brk s) x dflt 0 t)
           \<and> (\<forall>b. b \<notin> set (addrs t) \<and> b \<noteq> brk s \<longrightarrow> heap s' b = heap s b)"
proof -
  have rp: "rep (heap s) (mRoot s) None t" and dist: "distinct (addrs t)"
    and bound: "\<forall>a. heap s a \<noteq> None \<longrightarrow> a < brk s"
    and sz: "size_m s = of_nat (length (addrs t))"
    using r by (auto simp: repr_def)
  let ?t1 = "ins0 (brk s) x dflt 0 t"
  have f0: "FindNode (heap s) (mRoot s) x = Some None"
    using FindNode_rep[OF rp] find_abs_absent[OF x] by simp
  have tl: "t = Leaf \<longrightarrow> mRoot s = None" using rp by auto
  have pre6: "case None :: addr option of None \<Rightarrow> (0::int) = 0 | Some q \<Rightarrow> (\<exists>qn. heap s q = Some qn \<and> 0 = height qn + 1)"
    by simp
  from InsertItem_rep[OF rp dist x bound tl pre6, of dflt "[]"]
  obtain s1 where s1: "InsertItem (mRoot s) (mRoot s) x dflt [] s = Some (root_of ?t1, rev (path x t), s1)"
    "rep (heap s1) (root_of ?t1) None ?t1"
    "\<forall>b. heap s1 b \<noteq> None \<longrightarrow> b < brk s1"
    "\<forall>b. b \<notin> set (addrs t) \<and> b \<noteq> brk s \<longrightarrow> heap s1 b = heap s b"
    "mRoot s1 = (if mRoot s = None then Some (brk s) else mRoot s)"
    "brk s1 = Suc (brk s)" "size_m s1 = size_m s + 1" "log s1 = log s"
    by (simp (no_asm_use)) blast
  have fresh: "brk s \<notin> set (addrs t)" using rep_dom[OF rp] bound by (metis less_irrefl)
  have m1: "mRoot s1 = root_of ?t1"
    using s1(5) rep_root[OF rp] by (cases t) auto
  have r1: "repr s1 ?t1"
    unfolding repr_def
    using s1(2,3,7) m1 distinct_ins0[OF dist fresh x] sz length_addrs_ins0[OF x]
    by simp
  have sub: "set (rev (path x t)) \<subseteq> set (addrs ?t1)"
    using path_subset[of x t] addrs_ins0[OF x] by auto
  from BalanceTree_repr[OF r1 sub, of True]
  obtain s2 where s2: "BalanceTree (rev (path x t)) True s1 = Some s2"
    "repr s2 (insert_abs (brk s) x dflt t)" "brk s2 = brk s1"
    "log s2 = log s1 @ bal_events (rev (path x t)) True ?t1"
    "\<forall>b. b \<notin> set (addrs ?t1) \<longrightarrow> heap s2 b = heap s1 b"
    by (auto simp: insert_abs_def)
  have fr: "\<forall>b. b \<notin> set (addrs t) \<and> b \<noteq> brk s \<longrightarrow> heap s2 b = heap s b"
    using s2(5) s1(4) addrs_ins0[OF x, of "brk s" dflt 0] by simp
  let ?t2 = "insert_abs (brk s) x dflt t"
  have it: "items ?t2 = items ?t1" by (simp add: insert_abs_def)
  have b2: "bst ?t2" using bst_ins0[OF b x, of "brk s" dflt 0] by (simp add: bst_def keys_items it)
  have mem: "(brk s, x, dflt) \<in> set (items ?t2)" using items_ins0[OF x, of "brk s" dflt 0] it by simp
  then have xin: "x \<in> set (keys ?t2)" by (force simp: keys_items)
  from find_abs_present[OF b2 xin] obtain a v where av: "find_abs x ?t2 = Some a" "(a, x, v) \<in> set (items ?t2)"
    by blast
  have a: "a = brk s" using bst_items_unique[OF b2 mem av(2)] by simp
  have rp2: "rep (heap s2) (mRoot s2) None ?t2" using s2(2) by (simp add: repr_def)
  have f2: "FindNode (heap s2) (mRoot s2) x = Some (Some (brk s))"
    using FindNode_rep[OF rp2] av(1) a by simp
  have sz2: "size_m s2 = size_m s + 1"
    using s2(2) sz length_addrs_ins0[OF x, of "brk s" dflt 0] it
    by (simp add: repr_def set_addrs_items)
  have "operator_subscript dflt x s = Some (brk s, s2)"
    by (simp add: operator_subscript_def f0 s1(1) s2(1) f2)
  then show ?thesis using s2(2-4) s1(6,8) sz2 fr by simp
qed

lemma operator_subscript_present:
  assumes r: "repr s t" and b: "bst t" and x: "x \<in> set (keys t)"
  shows "\<exists>a v. operator_subscript dflt x s = Some (a, s) \<and> (a, x, v) \<in> set (items t)"
proof -
  have rp: "rep (heap s) (mRoot s) None t" using r by (auto simp: repr_def)
  from find_abs_present[OF b x] obtain a v where av: "find_abs x t = Some a" "(a, x, v) \<in> set (items t)"
    by blast
  have "FindNode (heap s) (mRoot s) x = Some (Some a)" using FindNode_rep[OF rp] av(1) by simp
  then have "operator_subscript dflt x s = Some (a, s)" by (simp add: operator_subscript_def)
  then show ?thesis using av(2) by blast
qed


section \<open>In-order navigation through parent pointers\<close>

lemma next_in_notin: "x \<notin> set xs \<Longrightarrow> next_in xs x = None"
  by (induction xs x rule: next_in.induct) auto

lemma next_in_append_right: "x \<notin> set xs \<Longrightarrow> next_in (xs @ ys) x = next_in ys x"
proof (induction xs)
  case Nil
  then show ?case by simp
next
  case (Cons y xs)
  then show ?case by (cases "xs @ ys") auto
qed

lemma next_in_last: "distinct xs \<Longrightarrow> xs \<noteq> [] \<Longrightarrow> next_in xs (last xs) = None"
  by (induction xs "last xs" rule: next_in.induct) (auto split: if_splits)

lemma next_in_None_last: "x \<in> set xs \<Longrightarrow> next_in xs x = None \<Longrightarrow> x = last xs"
  by (induction xs x rule: next_in.induct) (auto split: if_splits)

lemma next_in_append_left:
  "next_in xs x = Some y \<Longrightarrow> next_in (xs @ ys) x = Some y"
  by (induction xs x rule: next_in.induct) (auto split: if_splits)

lemma next_in_append_last:
  "distinct xs \<Longrightarrow> xs \<noteq> [] \<Longrightarrow> next_in (xs @ z # zs) (last xs) = Some z"
proof (induction xs)
  case Nil
  then show ?case by simp
next
  case (Cons y xs)
  show ?case
  proof (cases xs)
    case Nil
    then show ?thesis by simp
  next
    case (Cons y' xs')
    then have "last (y # xs) = last xs" "y \<noteq> last xs" using Cons.prems by auto
    then show ?thesis using Cons.IH Cons.prems Cons by auto
  qed
qed

lemma next_in_Cons_head: "distinct (x # z # zs) \<Longrightarrow> next_in (x # z # zs) x = Some z"
  by simp

lemma rev_addrs_rev: "rev_addrs t = rev (addrs t)"
  by (induction t) auto

lemma addrs_Nil_iff [simp]: "addrs t = [] \<longleftrightarrow> t = Leaf"
  by (cases t) auto

lemma rev_addrs_Nil_iff [simp]: "rev_addrs t = [] \<longleftrightarrow> t = Leaf"
  by (cases t) auto

lemma set_rev_addrs [simp]: "set (rev_addrs t) = set (addrs t)"
  by (simp add: rev_addrs_rev)

lemma distinct_rev_addrs [simp]: "distinct (rev_addrs t) = distinct (addrs t)"
  by (simp add: rev_addrs_rev)

lemma Node_first_rep:
  "rep h (Some a) par t \<Longrightarrow> Node_first h a = Some (hd (addrs t))"
proof (induction t arbitrary: a par)
  case Leaf
  then show ?case by simp
next
  case (Node l a' k v d r)
  have aa: "a' = a" using Node.prems by simp
  obtain n where n: "h a = Some n" "a' = a" "rep h (left n) (Some a) l"
    using Node.prems unfolding aa by auto
  show ?case
  proof (cases l)
    case Leaf
    have ln: "left n = None" using n(3) Leaf by simp
    show ?thesis by (subst Node_first.simps) (simp add: n(1,2) Leaf ln)
  next
    case (Node l1 a1 k1 v1 d1 r1)
    then have l1: "left n = Some a1" using n(3) by simp
    have "rep h (Some a1) (Some a) l" using n(3) l1 by simp
    from Node.IH(1)[OF this] have ih: "Node_first h a1 = Some (hd (addrs l))" .
    have "Node_first h a = Node_first h a1" by (subst Node_first.simps) (simp add: n(1) l1)
    also have "\<dots> = Some (hd (addrs l))" by (rule ih)
    also have "hd (addrs l) = hd (addrs (Node l a' k v d r))" using Node by (simp add: hd_append)
    finally show ?thesis .
  qed
qed

lemma Node_last_rep:
  "rep h (Some a) par t \<Longrightarrow> Node_last h a = Some (hd (rev_addrs t))"
proof (induction t arbitrary: a par)
  case Leaf
  then show ?case by simp
next
  case (Node l a' k v d r)
  have aa: "a' = a" using Node.prems by simp
  obtain n where n: "h a = Some n" "a' = a" "rep h (right n) (Some a) r"
    using Node.prems unfolding aa by auto
  show ?case
  proof (cases r)
    case Leaf
    have rn: "right n = None" using n(3) Leaf by simp
    show ?thesis by (subst Node_last.simps) (simp add: n(1,2) Leaf rn)
  next
    case (Node l1 a1 k1 v1 d1 r1)
    then have r1: "right n = Some a1" using n(3) by simp
    have "rep h (Some a1) (Some a) r" using n(3) r1 by simp
    from Node.IH(2)[OF this] have ih: "Node_last h a1 = Some (hd (rev_addrs r))" .
    have "Node_last h a = Node_last h a1" by (subst Node_last.simps) (simp add: n(1) r1)
    also have "\<dots> = Some (hd (rev_addrs r))" by (rule ih)
    also have "hd (rev_addrs r) = hd (rev_addrs (Node l a' k v d r))" using Node by (simp add: hd_append)
    finally show ?thesis .
  qed
qed

lemma increment_loop_step:
  "h p = Some pn \<Longrightarrow> increment_loop h w (Some p) =
     (if right pn = Some w then increment_loop h p (parent pn) else Some (Some p))"
  by (subst increment_loop.simps) simp

lemma increment_loop_None [simp]: "increment_loop h w None = Some None"
  by (subst increment_loop.simps) simp

lemma Node_increment_rep:
  assumes "rep h (Some a) par t" and "distinct (addrs t)" and "x \<in> set (addrs t)"
  shows "Node_increment h x =
           (case next_in (addrs t) x of
              Some y \<Rightarrow> Some (Some y)
            | None \<Rightarrow> increment_loop h a par)"
  using assms
proof (induction t arbitrary: a par)
  case Leaf
  then show ?case by simp
next
  case (Node l a' k v d r)
  have aa: "a' = a" using Node.prems(1) by simp
  obtain n where n: "h a = Some n" "a' = a" "parent n = par"
    "rep h (left n) (Some a) l" "rep h (right n) (Some a) r"
    using Node.prems(1) unfolding aa by auto
  have dist: "distinct (addrs l)" "distinct (addrs r)" "a \<notin> set (addrs l)" "a \<notin> set (addrs r)"
    "set (addrs l) \<inter> set (addrs r) = {}"
    using Node.prems(2) n(2) by auto
  have ll: "left n = root_of l" and rr: "right n = root_of r"
    using rep_root[OF n(4)] rep_root[OF n(5)] by simp_all
  consider (L) "x \<in> set (addrs l)" | (M) "x = a" | (R) "x \<in> set (addrs r)"
    using Node.prems(3) n(2) by auto
  then show ?case
  proof cases
    case L
    then obtain l1 a1 k1 v1 d1 r1 where l: "l = Node l1 a1 k1 v1 d1 r1" by (cases l) auto
    have rl: "rep h (Some a1) (Some a) l" using n(4) ll l by simp
    have ih: "Node_increment h x =
           (case next_in (addrs l) x of Some y \<Rightarrow> Some (Some y) | None \<Rightarrow> increment_loop h a1 (Some a))"
      using Node.IH(1)[OF rl dist(1) L] .
    have a1l: "a1 \<in> set (addrs l)" by (simp add: l)
    have rn: "right n \<noteq> Some a1"
    proof
      assume "right n = Some a1"
      then have "a1 \<in> set (addrs r)" using rr by (cases r) auto
      with a1l dist(5) show False by auto
    qed
    show ?thesis
    proof (cases "next_in (addrs l) x")
      case None
      then have xl: "x = last (addrs l)" using next_in_None_last[OF L] by simp
      have "addrs l \<noteq> []" using L by auto
      then have "next_in (addrs l @ a # addrs r) x = Some a"
        using next_in_append_last[OF dist(1)] xl by simp
      moreover have "increment_loop h a1 (Some a) = Some (Some a)"
        using increment_loop_step[of h a n, OF n(1)] rn by simp
      ultimately show ?thesis using ih None n(2) by simp
    next
      case (Some y)
      then show ?thesis using ih next_in_append_left[OF Some] n(2) by simp
    qed
  next
    case M
    have nl: "next_in (addrs l @ a # addrs r) a = next_in (a # addrs r) a"
      using next_in_append_right[OF dist(3)] .
    show ?thesis
    proof (cases r)
      case Leaf
      then have "right n = None" using rr by simp
      moreover have "(if par = None then Some None else increment_loop h a par) = increment_loop h a par"
        by simp
      ultimately show ?thesis using M n nl Leaf by (simp add: Node_increment_def)
    next
      case (Node l1 a1 k1 v1 d1 r1)
      then have r1: "right n = Some a1" using rr by simp
      have "rep h (Some a1) (Some a) r" using n(5) r1 by simp
      from Node_first_rep[OF this] have f: "Node_first h a1 = Some (hd (addrs r))" .
      have "addrs r \<noteq> []" using Node by simp
      then obtain z zs where z: "addrs r = z # zs" by (cases "addrs r") auto
      show ?thesis using M n nl r1 f z by (simp add: Node_increment_def)
    qed
  next
    case R
    then obtain l1 a1 k1 v1 d1 r1 where r: "r = Node l1 a1 k1 v1 d1 r1" by (cases r) auto
    have rr': "rep h (Some a1) (Some a) r" using n(5) rr r by simp
    have ih: "Node_increment h x =
           (case next_in (addrs r) x of Some y \<Rightarrow> Some (Some y) | None \<Rightarrow> increment_loop h a1 (Some a))"
      using Node.IH(2)[OF rr' dist(2) R] .
    have xa: "x \<noteq> a" "x \<notin> set (addrs l)" using R dist by auto
    have "addrs r \<noteq> []" using R by auto
    then obtain z zs where z: "addrs r = z # zs" by (cases "addrs r") auto
    have nx: "next_in (addrs l @ a # addrs r) x = next_in (addrs r) x"
      using next_in_append_right[OF xa(2), of "a # addrs r"] xa(1) z by simp
    have "increment_loop h a1 (Some a) = increment_loop h a par"
      using increment_loop_step[of h a n, OF n(1)] rr r n(3) by simp
    then show ?thesis using ih nx n(2) by (simp split: option.splits)
  qed
qed


lemma decrement_loop_step:
  "h p = Some pn \<Longrightarrow> decrement_loop h w (Some p) =
     (if left pn = Some w then decrement_loop h p (parent pn) else Some (Some p))"
  by (subst decrement_loop.simps) simp

lemma decrement_loop_None [simp]: "decrement_loop h w None = Some None"
  by (subst decrement_loop.simps) simp

lemma Node_decrement_rep:
  assumes "rep h (Some a) par t" and "distinct (rev_addrs t)" and "x \<in> set (rev_addrs t)"
    and "\<forall>p pn. par = Some p \<and> h p = Some pn \<longrightarrow> \<not> (left pn = Some a \<and> right pn = Some a)"
  shows "Node_decrement h x =
           (case next_in (rev_addrs t) x of
              Some y \<Rightarrow> Some (Some y)
            | None \<Rightarrow> decrement_loop h a par)"
  using assms
proof (induction t arbitrary: a par)
  case Leaf
  then show ?case by simp
next
  case (Node l a' k v d r)
  have aa: "a' = a" using Node.prems(1) by simp
  obtain n where n: "h a = Some n" "a' = a" "parent n = par"
    "rep h (right n) (Some a) r" "rep h (left n) (Some a) l"
    using Node.prems(1) unfolding aa by auto
  have dist: "distinct (rev_addrs r)" "distinct (rev_addrs l)" "a \<notin> set (rev_addrs r)" "a \<notin> set (rev_addrs l)"
    "set (rev_addrs r) \<inter> set (rev_addrs l) = {}"
    using Node.prems(2) n(2) by auto
  have rr: "right n = root_of r" and ll: "left n = root_of l"
    using rep_root[OF n(4)] rep_root[OF n(5)] by simp_all
  consider (R) "x \<in> set (rev_addrs r)" | (M) "x = a" | (L) "x \<in> set (rev_addrs l)"
    using Node.prems(3) n(2) by auto
  then show ?case
  proof cases
    case R
    then obtain l1 a1 k1 v1 d1 r1 where r: "r = Node l1 a1 k1 v1 d1 r1" by (cases r) auto
    have lr: "rep h (Some a1) (Some a) r" using n(4) rr r by simp
    have a1l: "a1 \<in> set (rev_addrs r)" by (simp add: r)
    have rn: "left n \<noteq> Some a1"
    proof
      assume "left n = Some a1"
      then have "a1 \<in> set (rev_addrs l)" using ll by (cases l) auto
      with a1l dist(5) show False by auto
    qed
    have pc: "\<forall>p pn. Some a = Some p \<and> h p = Some pn \<longrightarrow> \<not> (left pn = Some a1 \<and> right pn = Some a1)"
      using n(1) rn by auto
    have ih: "Node_decrement h x =
           (case next_in (rev_addrs r) x of Some y \<Rightarrow> Some (Some y) | None \<Rightarrow> decrement_loop h a1 (Some a))"
      using Node.IH(2)[OF lr dist(1) R pc] .
    show ?thesis
    proof (cases "next_in (rev_addrs r) x")
      case None
      then have xl: "x = last (rev_addrs r)" using next_in_None_last[OF R] by simp
      have "rev_addrs r \<noteq> []" using R by auto
      then have "next_in (rev_addrs r @ a # rev_addrs l) x = Some a"
        using next_in_append_last[OF dist(1)] xl by simp
      moreover have "decrement_loop h a1 (Some a) = Some (Some a)"
        using decrement_loop_step[of h a n, OF n(1)] rn by simp
      ultimately show ?thesis using ih None n(2) by simp
    next
      case (Some y)
      then show ?thesis using ih next_in_append_left[OF Some] n(2) by simp
    qed
  next
    case M
    have nl: "next_in (rev_addrs r @ a # rev_addrs l) a = next_in (a # rev_addrs l) a"
      using next_in_append_right[OF dist(3)] .
    show ?thesis
    proof (cases l)
      case Leaf
      then have ln: "left n = None" using ll by simp
      have "(case par of None \<Rightarrow> decrement_loop h a par
             | Some p \<Rightarrow> (case h p of None \<Rightarrow> None
                 | Some pn \<Rightarrow> if right pn = Some a then Some par else decrement_loop h a par))
            = decrement_loop h a par"
      proof (cases par)
        case None
        then show ?thesis by simp
      next
        case (Some p)
        show ?thesis
        proof (cases "h p")
          case None
          then show ?thesis using Some by (subst (2) decrement_loop.simps) simp
        next
          case pn: (Some pn)
          then show ?thesis using Some Node.prems(4) n(2) decrement_loop_step[of h p pn a, OF pn]
            by auto
        qed
      qed
      then show ?thesis using M n(1,2) nl Leaf ln unfolding n(3)[symmetric]
        by (simp add: Node_decrement_def)
    next
      case (Node l1 a1 k1 v1 d1 r1)
      then have r1: "left n = Some a1" using ll by simp
      have "rep h (Some a1) (Some a) l" using n(5) r1 by simp
      from Node_last_rep[OF this] have f: "Node_last h a1 = Some (hd (rev_addrs l))" .
      have "rev_addrs l \<noteq> []" using Node by simp
      then obtain z zs where z: "rev_addrs l = z # zs" by (cases "rev_addrs l") auto
      show ?thesis using M n nl r1 f z by (simp add: Node_decrement_def)
    qed
  next
    case L
    then obtain l1 a1 k1 v1 d1 r1 where l: "l = Node l1 a1 k1 v1 d1 r1" by (cases l) auto
    have rr': "rep h (Some a1) (Some a) l" using n(5) ll l by simp
    have a1l: "a1 \<in> set (rev_addrs l)" by (simp add: l)
    have rn: "right n \<noteq> Some a1"
    proof
      assume "right n = Some a1"
      then have "a1 \<in> set (rev_addrs r)" using rr by (cases r) auto
      with a1l dist(5) show False by auto
    qed
    have pc: "\<forall>p pn. Some a = Some p \<and> h p = Some pn \<longrightarrow> \<not> (left pn = Some a1 \<and> right pn = Some a1)"
      using n(1) rn by auto
    have ih: "Node_decrement h x =
           (case next_in (rev_addrs l) x of Some y \<Rightarrow> Some (Some y) | None \<Rightarrow> decrement_loop h a1 (Some a))"
      using Node.IH(1)[OF rr' dist(2) L pc] .
    have xa: "x \<noteq> a" "x \<notin> set (rev_addrs r)" using L dist by auto
    have "rev_addrs l \<noteq> []" using L by auto
    then obtain z zs where z: "rev_addrs l = z # zs" by (cases "rev_addrs l") auto
    have nx: "next_in (rev_addrs r @ a # rev_addrs l) x = next_in (rev_addrs l) x"
      using next_in_append_right[OF xa(2), of "a # rev_addrs l"] xa(1) z by simp
    have "decrement_loop h a1 (Some a) = decrement_loop h a par"
      using decrement_loop_step[of h a n, OF n(1)] ll l n(3) by simp
    then show ?thesis using ih nx n(2) by (simp split: option.splits)
  qed
qed


section \<open>Iteration\<close>

lemma key_at_addrs: "rep h p par t \<Longrightarrow> map (\<lambda>b. key (the (h b))) (addrs t) = keys t"
  by (induction t arbitrary: p par) auto

lemma next_in_mid:
  "distinct (pre @ x # post) \<Longrightarrow>
   next_in (pre @ x # post) x = (case post of [] \<Rightarrow> None | y # ys \<Rightarrow> Some y)"
proof -
  assume d: "distinct (pre @ x # post)"
  then have "x \<notin> set pre" by auto
  from next_in_append_right[OF this] show ?thesis by (cases post) auto
qed

lemma forward_from_rep:
  assumes "rep h (Some a) None t" and "distinct (addrs t)" and "addrs t = pre @ x # post"
  shows "forward_from h (Some x) = Some (map (\<lambda>b. key (the (h b))) (x # post))"
  using assms(3)
proof (induction post arbitrary: pre x)
  case Nil
  have xin: "x \<in> set (addrs t)" using Nil by simp
  then obtain nx where nx: "h x = Some nx" using rep_dom[OF assms(1)] by blast
  have "next_in (addrs t) x = None" using next_in_mid[of pre x "[]"] assms(2) Nil by simp
  then have inc: "Node_increment h x = Some None"
    using Node_increment_rep[OF assms(1,2) xin] by simp
  have e: "forward_from h None = Some []" by (subst forward_from.simps) simp
  show ?case by (subst forward_from.simps) (simp add: nx inc e)
next
  case (Cons y ys)
  have xin: "x \<in> set (addrs t)" using Cons.prems by simp
  then obtain nx where nx: "h x = Some nx" using rep_dom[OF assms(1)] by blast
  have "next_in (addrs t) x = Some y" using next_in_mid[of pre x "y # ys"] assms(2) Cons.prems by simp
  then have inc: "Node_increment h x = Some (Some y)"
    using Node_increment_rep[OF assms(1,2) xin] by simp
  have "addrs t = (pre @ [x]) @ y # ys" using Cons.prems by simp
  from Cons.IH[OF this] have ih: "forward_from h (Some y) = Some (map (\<lambda>b. key (the (h b))) (y # ys))" .
  show ?case by (subst forward_from.simps) (simp add: nx inc ih)
qed

lemma keys_forward_repr: "repr s t \<Longrightarrow> keys_forward s = Some (keys t)"
proof -
  assume r: "repr s t"
  have rp: "rep (heap s) (mRoot s) None t" and dist: "distinct (addrs t)"
    using r by (auto simp: repr_def)
  show ?thesis
  proof (cases t)
    case Leaf
    then have "mRoot s = None" using rp by simp
    moreover have "forward_from (heap s) None = Some []" by (subst forward_from.simps) simp
    ultimately show ?thesis using Leaf by (simp add: keys_forward_def AVLmap_begin_def AVLmap_end_def)
  next
    case (Node l a k v d r)
    then have m: "mRoot s = Some a" using rp by simp
    have rp': "rep (heap s) (Some a) None t" using rp m by simp
    have f: "Node_first (heap s) a = Some (hd (addrs t))" using Node_first_rep[OF rp'] .
    have "addrs t \<noteq> []" using Node by simp
    then obtain x post where xp: "addrs t = [] @ x # post" by (cases "addrs t") auto
    from forward_from_rep[OF rp' dist xp]
    have "forward_from (heap s) (Some x) = Some (map (\<lambda>b. key (the (heap s b))) (addrs t))"
      using xp by simp
    then show ?thesis using m f xp key_at_addrs[OF rp]
      by (simp add: keys_forward_def AVLmap_begin_def)
  qed
qed


lemma backward_from_rep:
  assumes "rep h (Some a) None t" and "distinct (rev_addrs t)" and "rev_addrs t = pre @ x # post"
  shows "backward_from h (Some x) = Some (map (\<lambda>b. key (the (h b))) (x # post))"
  using assms(3)
proof (induction post arbitrary: pre x)
  case Nil
  have xin: "x \<in> set (rev_addrs t)" using Nil by simp
  then obtain nx where nx: "h x = Some nx" using rep_dom[OF assms(1), of x] by auto
  have "next_in (rev_addrs t) x = None" using next_in_mid[of pre x "[]"] assms(2) Nil by simp
  then have inc: "Node_decrement h x = Some None"
    using Node_decrement_rep[OF assms(1,2) xin] by simp
  have e: "backward_from h None = Some []" by (subst backward_from.simps) simp
  show ?case by (subst backward_from.simps) (simp add: nx inc e)
next
  case (Cons y ys)
  have xin: "x \<in> set (rev_addrs t)" using Cons.prems by simp
  then obtain nx where nx: "h x = Some nx" using rep_dom[OF assms(1), of x] by auto
  have "next_in (rev_addrs t) x = Some y" using next_in_mid[of pre x "y # ys"] assms(2) Cons.prems by simp
  then have inc: "Node_decrement h x = Some (Some y)"
    using Node_decrement_rep[OF assms(1,2) xin] by simp
  have "rev_addrs t = (pre @ [x]) @ y # ys" using Cons.prems by simp
  from Cons.IH[OF this] have ih: "backward_from h (Some y) = Some (map (\<lambda>b. key (the (h b))) (y # ys))" .
  show ?case by (subst backward_from.simps) (simp add: nx inc ih)
qed

lemma keys_backward_repr: "repr s t \<Longrightarrow> keys_backward s = Some (rev (keys t))"
proof -
  assume l: "repr s t"
  have rp: "rep (heap s) (mRoot s) None t" and dist: "distinct (rev_addrs t)"
    using l by (auto simp: repr_def)
  have kr: "map (\<lambda>b. key (the (heap s b))) (rev_addrs t) = rev (keys t)"
    using key_at_addrs[OF rp] by (simp add: rev_addrs_rev rev_map[symmetric])
  show ?thesis
  proof (cases t)
    case Leaf
    then have "mRoot s = None" using rp by simp
    moreover have "backward_from (heap s) None = Some []" by (subst backward_from.simps) simp
    ultimately show ?thesis using Leaf by (simp add: keys_backward_def)
  next
    case (Node l a k v d r)
    then have m: "mRoot s = Some a" using rp by simp
    have rp': "rep (heap s) (Some a) None t" using rp m by simp
    have f: "Node_last (heap s) a = Some (hd (rev_addrs t))" using Node_last_rep[OF rp'] .
    have "rev_addrs t \<noteq> []" using Node by simp
    then obtain x post where xp: "rev_addrs t = [] @ x # post" by (cases "rev_addrs t") auto
    from backward_from_rep[OF rp' dist xp]
    have "backward_from (heap s) (Some x) = Some (map (\<lambda>b. key (the (heap s b))) (rev_addrs t))"
      using xp by simp
    then show ?thesis using m f xp kr
      by (simp add: keys_backward_def)
  qed
qed


section \<open>Well-formed states\<close>

lemma repr_AVLmap: "repr AVLmap Leaf"
  by (simp add: repr_def AVLmap_def)

lemma well_formed_AVLmap: "well_formed AVLmap"
  unfolding well_formed_def using repr_AVLmap by (auto simp: bst_def)

lemma well_formed_log [simp]: "well_formed (s\<lparr>log := x\<rparr>) = well_formed s"
  by (simp add: well_formed_def)

lemma rep_item:
  "rep h p par t \<Longrightarrow> (a, k, v) \<in> set (items t) \<Longrightarrow> \<exists>n. h a = Some n \<and> key n = k \<and> val n = v"
  by (induction t arbitrary: p par) auto

lemma bst_insert_abs: "bst t \<Longrightarrow> x \<notin> set (keys t) \<Longrightarrow> bst (insert_abs a' x v' t)"
  using bst_ins0[of t x a' v' 0] by (simp add: bst_def keys_items insert_abs_def)

lemma keys_insert_abs:
  "x \<notin> set (keys t) \<Longrightarrow> set (keys (insert_abs a' x v' t)) = insert x (set (keys t))"
  using keys_ins0[of x t a' v' 0] by (simp add: keys_items insert_abs_def)

lemma items_insert_abs:
  "x \<notin> set (keys t) \<Longrightarrow> set (items (insert_abs a' x v' t)) = insert (a', x, v') (set (items t))"
  using items_ins0[of x t a' v' 0] by (simp add: insert_abs_def)

lemma operator_subscript_repr:
  assumes "repr s t" and "bst t"
  shows "\<exists>a s' t'. operator_subscript dflt x s = Some (a, s') \<and> repr s' t' \<and> bst t'
           \<and> set (keys t') = insert x (set (keys t))"
proof (cases "x \<in> set (keys t)")
  case True
  from operator_subscript_present[OF assms True, of dflt]
  obtain a v where "operator_subscript dflt x s = Some (a, s)" by blast
  moreover have "set (keys t) = insert x (set (keys t))" using True by auto
  ultimately show ?thesis using assms by blast
next
  case False
  from operator_subscript_absent[OF assms False, of dflt]
  obtain s' where "operator_subscript dflt x s = Some (brk s, s')" "repr s' (insert_abs (brk s) x dflt t)"
    by blast
  then show ?thesis
    using bst_insert_abs[OF assms(2) False, of "brk s" dflt] keys_insert_abs[OF False, of "brk s" dflt]
    by blast
qed

lemma insert_keys_repr:
  assumes "repr s t" and "bst t"
  shows "\<exists>s' t'. insert_keys dflt ks s = Some s' \<and> repr s' t' \<and> bst t'
           \<and> set (keys t') = set (keys t) \<union> set ks"
  using assms
proof (induction ks arbitrary: s t)
  case Nil
  then show ?case by auto
next
  case (Cons x ks)
  from operator_subscript_repr[OF Cons.prems, of dflt x]
  obtain a s1 t1 where s1: "operator_subscript dflt x s = Some (a, s1)" "repr s1 t1" "bst t1"
    "set (keys t1) = insert x (set (keys t))" by blast
  from Cons.IH[OF s1(2,3)]
  obtain s' t' where s': "insert_keys dflt ks s1 = Some s'" "repr s' t'" "bst t'"
    "set (keys t') = set (keys t1) \<union> set ks" by blast
  have "insert_keys dflt (x # ks) s = Some s'" using s1(1) s'(1) by simp
  moreover have "set (keys t') = set (keys t) \<union> set (x # ks)" using s'(4) s1(4) by auto
  ultimately show ?case using s'(2,3) by blast
qed

lemma well_formed_operator_subscript:
  assumes "well_formed s"
  shows "\<exists>a s'. operator_subscript dflt x s = Some (a, s') \<and> well_formed s'"
proof -
  obtain t where t: "repr s t" "bst t" using assms by (auto simp: well_formed_def)
  from operator_subscript_repr[OF t, of dflt x]
  obtain a s' t' where r: "operator_subscript dflt x s = Some (a, s')" "repr s' t'" "bst t'" by blast
  have "well_formed s'" unfolding well_formed_def by (rule exI[of _ t']) (simp add: r)
  with r(1) show ?thesis by (intro exI conjI)
qed

lemma well_formed_insert_keys:
  assumes "well_formed s"
  shows "\<exists>s'. insert_keys dflt ks s = Some s' \<and> well_formed s'"
proof -
  obtain t where t: "repr s t" "bst t" using assms by (auto simp: well_formed_def)
  from insert_keys_repr[OF t, of dflt ks]
  obtain s' t' where r: "insert_keys dflt ks s = Some s'" "repr s' t'" "bst t'" by blast
  have "well_formed s'" unfolding well_formed_def by (rule exI[of _ t']) (simp add: r)
  with r(1) show ?thesis by (intro exI conjI)
qed

lemma well_formed_built: "well_formed (built ks)"
proof -
  from well_formed_insert_keys[OF well_formed_AVLmap, of "0::int" ks]
  obtain s' :: "(int, int) state" where "insert_keys 0 ks AVLmap = Some s'" "well_formed s'"
    by blast
  then show ?thesis by (simp add: built_def)
qed

lemma count_list_distinct: "distinct xs \<Longrightarrow> x \<in> set xs \<Longrightarrow> count_list xs x = 1"
  by (induction xs) auto

lemma bst_distinct: "bst t \<Longrightarrow> distinct (keys t)"
  by (simp add: bst_def strict_sorted_iff)


section \<open>Removing a node with at most one child\<close>

lemma length_addrs_repl:
  "y \<in> set (addrs t) \<Longrightarrow>
   length (addrs (repl y u t)) + length (addrs (sub_at y t)) = length (addrs t) + length (addrs u)"
  by (induction t) auto

lemma addrs_repl_subset:
  "set (addrs u) \<subseteq> set (addrs (sub_at y t)) \<Longrightarrow> set (addrs (repl y u t)) \<subseteq> set (addrs t)"
  by (induction t) auto

lemma distinct_repl:
  "distinct (addrs t) \<Longrightarrow> distinct (addrs u) \<Longrightarrow> set (addrs u) \<subseteq> set (addrs (sub_at y t)) \<Longrightarrow>
   distinct (addrs (repl y u t))"
proof (induction t)
  case Leaf
  then show ?case by simp
next
  case (Node l a k v d r)
  show ?case
  proof (cases "a = y")
    case True
    then show ?thesis using Node.prems by simp
  next
    case ay: False
    show ?thesis
    proof (cases "y \<in> set (addrs l)")
      case True
      have u: "set (addrs u) \<subseteq> set (addrs (sub_at y l))" using Node.prems(3) ay True by simp
      have "set (addrs (repl y u l)) \<subseteq> set (addrs l)" using addrs_repl_subset[OF u] .
      moreover have "distinct (addrs (repl y u l))" using Node.IH(1) Node.prems u by simp
      ultimately show ?thesis using ay True Node.prems(1) by auto
    next
      case False
      have u: "set (addrs u) \<subseteq> set (addrs (sub_at y r))" using Node.prems(3) ay False by simp
      have "set (addrs (repl y u r)) \<subseteq> set (addrs r)" using addrs_repl_subset[OF u] .
      moreover have "distinct (addrs (repl y u r))" using Node.IH(2) Node.prems u by simp
      ultimately show ?thesis using ay False Node.prems(1) by auto
    qed
  qed
qed

lemma notin_repl:
  "distinct (addrs t) \<Longrightarrow> sub_at y t = Node l y k v d r \<Longrightarrow> y \<notin> set (addrs u) \<Longrightarrow>
   set (addrs u) \<subseteq> set (addrs l) \<union> set (addrs r) \<Longrightarrow> y \<notin> set (addrs (repl y u t))"
proof (induction t)
  case Leaf
  then show ?case by simp
next
  case (Node l1 a k1 v1 d1 r1)
  have yin: "y \<in> set (addrs (Node l1 a k1 v1 d1 r1))" using sub_at_Node_in[OF Node.prems(2)] by simp
  show ?case
  proof (cases "a = y")
    case True
    then show ?thesis using Node.prems by simp
  next
    case ay: False
    show ?thesis
    proof (cases "y \<in> set (addrs l1)")
      case True
      then have "y \<notin> set (addrs r1)" using Node.prems(1) by auto
      moreover have "y \<notin> set (addrs (repl y u l1))"
        using Node.IH(1) Node.prems ay True by simp
      ultimately show ?thesis using ay True by simp
    next
      case False
      moreover have "y \<notin> set (addrs (repl y u r1))"
        using Node.IH(2) Node.prems ay False by simp
      ultimately show ?thesis using ay by simp
    qed
  qed
qed

lemma of_nat_pred_word: "0 < n \<Longrightarrow> (of_nat (n - 1) :: 32 word) = of_nat n - 1"
  by (cases n) simp_all

text \<open>The root is removed: its only child, if any, becomes the root.\<close>

lemma remove_root_repr:
  assumes r: "repr s (Node l x k v d r')" and one: "l = Leaf \<or> r' = Leaf"
    and c: "c = (if l \<noteq> Leaf then l else r')"
    and h': "heap s' = (case root_of c of None \<Rightarrow> (heap s)(x := None)
                      | Some b \<Rightarrow> ((heap s)(b \<mapsto> (the (heap s b))\<lparr>parent := None\<rparr>))(x := None))"
    and m': "mRoot s' = root_of c" and b': "brk s' = brk s" and sz: "size_m s' = size_m s - 1"
  shows "repr s' c \<and> heap s' x = None \<and> (\<forall>b. b \<notin> set (addrs (Node l x k v d r')) \<longrightarrow> heap s' b = heap s b)"
proof -
  let ?t = "Node l x k v d r'"
  have rp: "rep (heap s) (mRoot s) None ?t" and dist: "distinct (addrs ?t)"
    and bound: "\<forall>a. heap s a \<noteq> None \<longrightarrow> a < brk s"
    and sz0: "size_m s = of_nat (length (addrs ?t))"
    using r by (auto simp: repr_def)
  obtain n where n: "heap s x = Some n" "rep (heap s) (left n) (Some x) l" "rep (heap s) (right n) (Some x) r'"
    using rp by auto
  have rc: "rep (heap s) (root_of c) (Some x) c"
    using n(2,3) rep_root[OF n(2)] rep_root[OF n(3)] c by auto
  have dc: "distinct (addrs c)" and xc: "x \<notin> set (addrs c)" using dist c by auto
  have csub: "set (addrs c) \<subseteq> set (addrs ?t)" using c by auto
  have rc': "rep (heap s') (root_of c) None c"
  proof (rule rep_reparent[OF rc dc])
    show "\<forall>b. b \<in> set (addrs c) \<and> Some b \<noteq> root_of c \<longrightarrow> heap s' b = heap s b"
      using xc by (auto simp: h' split: option.splits)
    show "case root_of c of None \<Rightarrow> True
          | Some ca \<Rightarrow> \<exists>n. heap s ca = Some n \<and> heap s' ca = Some (n\<lparr>parent := None\<rparr>)"
    proof (cases "root_of c")
      case None
      then show ?thesis by simp
    next
      case (Some b)
      then have bin: "b \<in> set (addrs c)" by (cases c) auto
      then have "heap s b \<noteq> None" using rep_dom[OF rc] by blast
      moreover have "b \<noteq> x" using bin xc by auto
      ultimately show ?thesis using Some by (auto simp: h')
    qed
  qed
  have len: "length (addrs c) = length (addrs ?t) - 1" using one c by auto
  have bnd: "\<forall>a. heap s' a \<noteq> None \<longrightarrow> a < brk s'"
  proof (intro allI impI)
    fix a assume a: "heap s' a \<noteq> None"
    have "heap s a \<noteq> None"
    proof (cases "root_of c")
      case None
      then show ?thesis using a by (auto simp: h' split: if_splits)
    next
      case (Some b)
      then have "b \<in> set (addrs c)" by (cases c) auto
      then have "heap s b \<noteq> None" using rep_dom[OF rc] by blast
      then show ?thesis using a Some by (auto simp: h' split: if_splits)
    qed
    then show "a < brk s'" using bound b' by simp
  qed
  have "repr s' c"
    unfolding repr_def using rc' m' dc bnd sz sz0 len of_nat_pred_word[of "length (addrs ?t)"] by simp
  moreover have "heap s' x = None" by (simp add: h' split: option.splits)
  moreover have "\<forall>b. b \<notin> set (addrs ?t) \<longrightarrow> heap s' b = heap s b"
  proof (intro allI impI)
    fix b assume b: "b \<notin> set (addrs ?t)"
    show "heap s' b = heap s b"
    proof (cases "root_of c")
      case None
      then show ?thesis using b by (simp add: h')
    next
      case (Some b0)
      then have "b0 \<in> set (addrs c)" by (cases c) auto
      then have "b0 \<noteq> b" using b csub by auto
      then show ?thesis using b Some by (simp add: h')
    qed
  qed
  ultimately show ?thesis by blast
qed

text \<open>A node below the root is removed: its only child, if any, takes its place.\<close>

lemma remove_inner_repr:
  assumes r: "repr s t" and sub: "sub_at x t = Node l x k v d r'" and one: "l = Leaf \<or> r' = Leaf"
    and nroot: "mRoot s \<noteq> Some x"
    and c: "c = (if l \<noteq> Leaf then l else r')"
    and q: "par_of x None t = Some q" "heap s q = Some qn"
    and h': "heap s' = (case root_of c of
                 None \<Rightarrow> ((heap s)(q \<mapsto> (if left qn = Some x then qn\<lparr>left := None\<rparr> else qn\<lparr>right := None\<rparr>)))(x := None)
               | Some b \<Rightarrow> ((heap s)(q \<mapsto> (if left qn = Some x then qn\<lparr>left := Some b\<rparr> else qn\<lparr>right := Some b\<rparr>),
                                      b \<mapsto> (the (heap s b))\<lparr>parent := Some q\<rparr>))(x := None))"
    and m': "mRoot s' = mRoot s" and b': "brk s' = brk s" and sz: "size_m s' = size_m s - 1"
  shows "repr s' (repl x c t) \<and> heap s' x = None \<and> (\<forall>b. b \<notin> set (addrs t) \<longrightarrow> heap s' b = heap s b)"
proof -
  have rp: "rep (heap s) (mRoot s) None t" and dist: "distinct (addrs t)"
    and bound: "\<forall>a. heap s a \<noteq> None \<longrightarrow> a < brk s"
    and sz0: "size_m s = of_nat (length (addrs t))"
    using r by (auto simp: repr_def)
  have xin: "x \<in> set (addrs t)" using sub_at_Node_in[OF sub] by simp
  from rep_context[OF rp dist xin, of 0] nroot q
  have ctx: "rep (heap s) (Some x) (Some q) (Node l x k v d r')" "q \<in> set (addrs t)"
    "q \<notin> set (addrs (Node l x k v d r'))"
    by (auto simp: sub)
  obtain n where n: "heap s x = Some n" "rep (heap s) (left n) (Some x) l" "rep (heap s) (right n) (Some x) r'"
    using ctx(1) by auto
  have du: "distinct (addrs (Node l x k v d r'))" using distinct_sub_at[OF dist, of x] sub by simp
  have usub: "set (addrs (Node l x k v d r')) \<subseteq> set (addrs t)" using addrs_sub_at[of x t] sub by simp
  have rc: "rep (heap s) (root_of c) (Some x) c"
    using n(2,3) rep_root[OF n(2)] rep_root[OF n(3)] c by auto
  have dc: "distinct (addrs c)" and xc: "x \<notin> set (addrs c)" and qc: "q \<notin> set (addrs c)"
    and csub: "set (addrs c) \<subseteq> set (addrs (Node l x k v d r'))"
    using du ctx(3) c by auto
  have qx: "q \<noteq> x" using ctx(3) by auto
  have rc': "rep (heap s') (root_of c) (Some q) c"
  proof (rule rep_reparent[OF rc dc])
    show "\<forall>b. b \<in> set (addrs c) \<and> Some b \<noteq> root_of c \<longrightarrow> heap s' b = heap s b"
      using xc qc by (auto simp: h' split: option.splits)
    show "case root_of c of None \<Rightarrow> True
          | Some ca \<Rightarrow> \<exists>n. heap s ca = Some n \<and> heap s' ca = Some (n\<lparr>parent := Some q\<rparr>)"
    proof (cases "root_of c")
      case None
      then show ?thesis by simp
    next
      case (Some b)
      then have bin: "b \<in> set (addrs c)" by (cases c) auto
      then have "heap s b \<noteq> None" using rep_dom[OF rc] by blast
      moreover have "b \<noteq> x" "b \<noteq> q" using bin xc qc by auto
      ultimately show ?thesis using Some by (auto simp: h')
    qed
  qed
  have hq: "heap s' q = Some (if left qn = Some x then qn\<lparr>left := root_of c\<rparr> else qn\<lparr>right := root_of c\<rparr>)"
  proof (cases "root_of c")
    case None
    then show ?thesis using qx by (simp add: h')
  next
    case (Some b)
    then have "b \<in> set (addrs c)" by (cases c) auto
    then have "b \<noteq> q" using qc by auto
    then show ?thesis using qx Some by (simp add: h')
  qed
  have fr: "\<forall>b. b \<notin> set (addrs (sub_at x t)) \<and> b \<noteq> q \<longrightarrow> heap s' b = heap s b"
  proof (intro allI impI)
    fix b assume b: "b \<notin> set (addrs (sub_at x t)) \<and> b \<noteq> q"
    then have bx: "b \<noteq> x" "b \<notin> set (addrs c)" using sub csub by auto
    show "heap s' b = heap s b"
    proof (cases "root_of c")
      case None
      then show ?thesis using b bx by (simp add: h')
    next
      case (Some b0)
      then have "b0 \<in> set (addrs c)" by (cases c) auto
      then have "b0 \<noteq> b" using bx by auto
      then show ?thesis using b bx Some by (simp add: h')
    qed
  qed
  have cs: "set (addrs c) \<subseteq> set (addrs (sub_at x t))" using csub sub by simp
  have rp': "rep (heap s') (mRoot s') None (repl x c t)"
    using rep_repl[OF rp dist xin _ q(1,2) hq rc' cs fr] nroot m' by simp
  have d': "distinct (addrs (repl x c t))" using distinct_repl[OF dist dc cs] .
  have "length (addrs (repl x c t)) + length (addrs (Node l x k v d r')) = length (addrs t) + length (addrs c)"
    using length_addrs_repl[OF xin, of c] sub by simp
  moreover have "length (addrs (Node l x k v d r')) = length (addrs c) + 1" using one c by auto
  ultimately have len: "length (addrs (repl x c t)) = length (addrs t) - 1" "0 < length (addrs t)"
    by auto
  have bnd: "\<forall>a. heap s' a \<noteq> None \<longrightarrow> a < brk s'"
  proof (intro allI impI)
    fix a assume a: "heap s' a \<noteq> None"
    have "heap s a \<noteq> None"
    proof (cases "a \<in> set (addrs t)")
      case True
      then show ?thesis using rep_dom[OF rp] by blast
    next
      case False
      then have "a \<notin> set (addrs (sub_at x t)) \<and> a \<noteq> q" using addrs_sub_at[of x t] ctx(2) by auto
      then show ?thesis using fr a by simp
    qed
    then show "a < brk s'" using bound b' by simp
  qed
  have "repr s' (repl x c t)"
    unfolding repr_def using rp' d' bnd sz sz0 len of_nat_pred_word[of "length (addrs t)"] by simp
  moreover have "heap s' x = None" by (simp add: h' split: option.splits)
  moreover have "\<forall>b. b \<notin> set (addrs t) \<longrightarrow> heap s' b = heap s b"
    using fr addrs_sub_at[of x t] ctx(2) by auto
  ultimately show ?thesis by blast
qed


lemma DeleteItem_splice:
  assumes r: "repr s t" and sub: "sub_at x t = Node l x k v d r'" and one: "l = Leaf \<or> r' = Leaf"
  shows "\<exists>s'. DeleteItem (Some x) k s = Some s'
           \<and> repr s' (repl x (if l \<noteq> Leaf then l else r') t)
           \<and> heap s' x = None \<and> (\<forall>b. b \<notin> set (addrs t) \<longrightarrow> heap s' b = heap s b)
           \<and> brk s' = brk s \<and> log s' = log s \<and> size_m s' = size_m s - 1"
proof -
  define c where "c = (if l \<noteq> Leaf then l else r')"
  have rp: "rep (heap s) (mRoot s) None t" and dist: "distinct (addrs t)"
    using r by (auto simp: repr_def)
  have xin: "x \<in> set (addrs t)" using sub_at_Node_in[OF sub] by simp
  have ry: "rep (heap s) (Some x) (par_of x None t) (Node l x k v d r')"
    using rep_context[OF rp dist xin, of 0] sub by simp
  then obtain n where n: "heap s x = Some n" "key n = k" "parent n = par_of x None t"
    "rep (heap s) (left n) (Some x) l" "rep (heap s) (right n) (Some x) r'" by auto
  have ln: "left n = root_of l" and rn: "right n = root_of r'"
    using rep_root[OF n(4)] rep_root[OF n(5)] by simp_all
  have du: "distinct (addrs (Node l x k v d r'))" using distinct_sub_at[OF dist, of x] sub by simp
  have lr: "(left n = None \<and> right n = root_of c) \<or> (left n = root_of c \<and> right n = None \<and> root_of c \<noteq> None)"
    using ln rn one by (cases l; cases r') (auto simp: c_def)
  show ?thesis
  proof (cases "mRoot s = Some x")
    case True
    then have "root_of t = Some x" using rep_root[OF rp] by simp
    then have t: "t = Node l x k v d r'" using sub by (cases t) auto
    show ?thesis
    proof (cases "root_of c")
      case None
      define s' where "s' = s\<lparr>mRoot := None, heap := (heap s)(x := None), size_m := size_m s - 1\<rparr>"
      have run: "DeleteItem (Some x) k s = Some s'"
        using True lr None
        by (subst DeleteItem.simps) (simp add: n(1,2) DeleteLeafNode_def FreeNode_def s'_def)
      have "repr s' c \<and> heap s' x = None \<and> (\<forall>b. b \<notin> set (addrs (Node l x k v d r')) \<longrightarrow> heap s' b = heap s b)"
        by (rule remove_root_repr[OF r[unfolded t] one c_def]) (simp_all add: s'_def None)
      then show ?thesis using run t by (auto simp: c_def s'_def)
    next
      case (Some b)
      then have bin: "b \<in> set (addrs c)" by (cases c) auto
      have "set (addrs c) \<subseteq> set (addrs l) \<union> set (addrs r')" by (auto simp: c_def)
      then have bx: "b \<noteq> x" using bin du by auto
      have "b \<in> set (addrs t)" using bin t by (auto simp: c_def split: if_splits)
      then obtain nb where nb: "heap s b = Some nb" using rep_dom[OF rp] by blast
      define s' where "s' = s\<lparr>mRoot := Some b,
         heap := ((heap s)(b \<mapsto> nb\<lparr>parent := None\<rparr>))(x := None), size_m := size_m s - 1\<rparr>"
      have run: "DeleteItem (Some x) k s = Some s'"
        apply (subst DeleteItem.simps)
        using True lr Some bx
        by (auto simp: n(1,2) nb FreeNode_def set_parent_def s'_def Let_def simp del: Option.bind_assoc)
      have "repr s' c \<and> heap s' x = None \<and> (\<forall>b. b \<notin> set (addrs (Node l x k v d r')) \<longrightarrow> heap s' b = heap s b)"
        by (rule remove_root_repr[OF r[unfolded t] one c_def]) (simp_all add: s'_def Some nb)
      then show ?thesis using run t by (auto simp: c_def s'_def)
    qed
  next
    case False
    from rep_context[OF rp dist xin, of 0] False
    obtain q qn where q: "par_of x None t = Some q" "heap s q = Some qn" "q \<notin> set (addrs (sub_at x t))"
      by auto
    have qx: "q \<noteq> x" using q(3) sub by auto
    have pn: "parent n = Some q" using n(3) q(1) by simp
    have nr: "Some x \<noteq> mRoot s" using False by auto
    show ?thesis
    proof (cases "root_of c")
      case None
      define s' where "s' = s\<lparr>heap := ((heap s)(q \<mapsto> (if left qn = Some x then qn\<lparr>left := None\<rparr> else qn\<lparr>right := None\<rparr>)))(x := None),
         size_m := size_m s - 1\<rparr>"
      have run: "DeleteItem (Some x) k s = Some s'"
        apply (subst DeleteItem.simps)
        using nr lr None qx
        by (auto simp: n(1,2) pn q(2) DeleteLeafNode_def FreeNode_def set_left_def set_right_def s'_def
              eq_commute[of "Some x" "left qn"] simp del: Option.bind_assoc)
      have "repr s' (repl x c t) \<and> heap s' x = None \<and> (\<forall>b. b \<notin> set (addrs t) \<longrightarrow> heap s' b = heap s b)"
        by (rule remove_inner_repr[OF r sub one False c_def q(1,2)]) (simp_all add: s'_def None)
      then show ?thesis using run by (auto simp: c_def s'_def)
    next
      case (Some b)
      then have bin: "b \<in> set (addrs c)" by (cases c) auto
      have cs: "set (addrs c) \<subseteq> set (addrs l) \<union> set (addrs r')" by (auto simp: c_def)
      then have bx: "b \<noteq> x" using bin du by auto
      have bq: "b \<noteq> q" using bin cs q(3) sub by auto
      have "b \<in> set (addrs t)" using bin cs addrs_sub_at[of x t] sub by auto
      then obtain nb where nb: "heap s b = Some nb" using rep_dom[OF rp] by blast
      define s' where "s' = s\<lparr>heap := ((heap s)(q \<mapsto> (if left qn = Some x then qn\<lparr>left := Some b\<rparr> else qn\<lparr>right := Some b\<rparr>),
                                      b \<mapsto> nb\<lparr>parent := Some q\<rparr>))(x := None),
         size_m := size_m s - 1\<rparr>"
      have run: "DeleteItem (Some x) k s = Some s'"
        apply (subst DeleteItem.simps)
        using False lr Some bx bq qx
        by (auto simp: n(1,2) pn q(2) nb FreeNode_def set_parent_def set_left_def set_right_def s'_def Let_def
              eq_commute[of "Some x" "left qn"] simp del: Option.bind_assoc)
      have "repr s' (repl x c t) \<and> heap s' x = None \<and> (\<forall>b. b \<notin> set (addrs t) \<longrightarrow> heap s' b = heap s b)"
        by (rule remove_inner_repr[OF r sub one False c_def q(1,2)]) (simp_all add: s'_def Some nb)
      then show ?thesis using run by (auto simp: c_def s'_def)
    qed
  qed
qed


section \<open>Removing a node with two children\<close>

lemma items_Nil_iff [simp]: "items t = [] \<longleftrightarrow> t = Leaf"
  by (cases t) auto

lemma keys_Nil_iff [simp]: "keys t = [] \<longleftrightarrow> t = Leaf"
  by (cases t) auto

lemma last_addrs_items: "t \<noteq> Leaf \<Longrightarrow> last (addrs t) = fst (last (items t))"
  by (simp add: set_addrs_items last_map)

lemma last_keys_items: "t \<noteq> Leaf \<Longrightarrow> last (keys t) = fst (snd (last (items t)))"
  by (simp add: keys_items last_map)

lemma items_del_last: "items (del_last t) = butlast (items t)"
  by (induction t) (auto simp: butlast_append)

lemma rightmost:
  "u \<noteq> Leaf \<Longrightarrow> distinct (addrs u) \<Longrightarrow> last (items u) = (ap, kp, vp) \<Longrightarrow>
   \<exists>lp dp. sub_at ap u = Node lp ap kp vp dp Leaf \<and> repl ap lp u = del_last u"
proof (induction u)
  case Leaf
  then show ?case by simp
next
  case (Node l a k v d r)
  show ?case
  proof (cases "r = Leaf")
    case True
    then show ?thesis using Node.prems by auto
  next
    case False
    then have lst: "last (items r) = (ap, kp, vp)" using Node.prems(3) by simp
    have "ap = fst (last (items r))" using lst by simp
    then have "ap = last (addrs r)" using last_addrs_items[OF False] by simp
    then have apr: "ap \<in> set (addrs r)" using False by (metis addrs_Nil_iff last_in_set)
    then have ne: "ap \<noteq> a" "ap \<notin> set (addrs l)" using Node.prems(2) by auto
    from Node.IH(2)[OF False _ lst] Node.prems(2)
    obtain lp dp where "sub_at ap r = Node lp ap kp vp dp Leaf" "repl ap lp r = del_last r" by auto
    then show ?thesis using ne False by auto
  qed
qed

lemma sub_at_repl_same:
  "y \<in> set (addrs t) \<Longrightarrow> root_of u = Some y \<Longrightarrow> set (addrs u) = set (addrs (sub_at y t)) \<Longrightarrow>
   sub_at y (repl y u t) = u"
proof (induction t)
  case Leaf
  then show ?case by simp
next
  case (Node l a k v d r)
  obtain l1 k1 v1 d1 r1 where u: "u = Node l1 y k1 v1 d1 r1" using Node.prems(2) by (cases u) auto
  show ?case
  proof (cases "a = y")
    case True
    then show ?thesis by (simp add: u)
  next
    case ay: False
    show ?thesis
    proof (cases "y \<in> set (addrs l)")
      case True
      then have s: "set (addrs u) = set (addrs (sub_at y l))" using Node.prems(3) ay by simp
      have "set (addrs (repl y u l)) = set (addrs l)" using addrs_repl[OF True s] .
      then show ?thesis using ay True Node.IH(1)[OF True Node.prems(2) s] by simp
    next
      case False
      then have yr: "y \<in> set (addrs r)" using Node.prems(1) ay by auto
      have s: "set (addrs u) = set (addrs (sub_at y r))" using Node.prems(3) ay False by simp
      show ?thesis using ay False Node.IH(2)[OF yr Node.prems(2) s] by simp
    qed
  qed
qed

lemma repl_repl_inside:
  assumes "distinct (addrs t)" and "sub_at x t = Node l x k v d r"
    and "b \<in> set (addrs l) \<union> set (addrs r)"
    and "set (addrs u) = set (addrs (Node l x k v d r))" and "root_of u = Some x"
  shows "repl b w (repl x u t) = repl x (repl b w u) t"
  using assms
proof (induction t)
  case Leaf
  then show ?case by simp
next
  case (Node l1 a k1 v1 d1 r1)
  have xin: "x \<in> set (addrs (Node l1 a k1 v1 d1 r1))" using sub_at_Node_in[OF Node.prems(2)] by simp
  have bsub: "b \<in> set (addrs (sub_at x (Node l1 a k1 v1 d1 r1)))" using Node.prems(2,3) by auto
  show ?case
  proof (cases "a = x")
    case True
    then show ?thesis by simp
  next
    case ax: False
    show ?thesis
    proof (cases "x \<in> set (addrs l1)")
      case True
      then have s: "sub_at x l1 = Node l x k v d r" using Node.prems(2) ax by simp
      have bl: "b \<in> set (addrs l1)" using bsub ax True addrs_sub_at[of x l1] by auto
      have ab: "a \<noteq> b" using bl Node.prems(1) by auto
      have su: "set (addrs u) = set (addrs (sub_at x l1))" using Node.prems(4) s by simp
      have "set (addrs (repl x u l1)) = set (addrs l1)" using addrs_repl[OF True su] .
      moreover have "repl b w (repl x u l1) = repl x (repl b w u) l1"
        using Node.IH(1)[OF _ s Node.prems(3,4,5)] Node.prems(1) by simp
      ultimately show ?thesis using ax ab bl True by simp
    next
      case False
      then have s: "sub_at x r1 = Node l x k v d r" using Node.prems(2) ax by simp
      have xr: "x \<in> set (addrs r1)" using xin ax False by auto
      have br: "b \<in> set (addrs r1)" using bsub ax False addrs_sub_at[of x r1] by auto
      have ab: "a \<noteq> b" "b \<notin> set (addrs l1)" using br Node.prems(1) by auto
      have su: "set (addrs u) = set (addrs (sub_at x r1))" using Node.prems(4) s by simp
      have "repl b w (repl x u r1) = repl x (repl b w u) r1"
        using Node.IH(2)[OF _ s Node.prems(3,4,5)] Node.prems(1) by simp
      then show ?thesis using ax ab False by simp
    qed
  qed
qed

text \<open>Overwriting the key and the value of a node in place.\<close>

lemma overwrite_repr:
  assumes r: "repr s t" and sub: "sub_at x t = Node l x k v d r'"
    and n: "heap s x = Some n"
    and h2: "heap s2 = (heap s)(x \<mapsto> n\<lparr>val := v2, key := k2\<rparr>)"
    and rest: "mRoot s2 = mRoot s" "brk s2 = brk s" "size_m s2 = size_m s"
  shows "repr s2 (repl x (Node l x k2 v2 d r') t)"
proof -
  have rp: "rep (heap s) (mRoot s) None t" and dist: "distinct (addrs t)"
    and bound: "\<forall>a. heap s a \<noteq> None \<longrightarrow> a < brk s"
    and sz0: "size_m s = of_nat (length (addrs t))"
    using r by (auto simp: repr_def)
  let ?u = "Node l x k v d r'" and ?u' = "Node l x k2 v2 d r'"
  have xin: "x \<in> set (addrs t)" using sub_at_Node_in[OF sub] by simp
  have ry: "rep (heap s) (Some x) (par_of x None t) ?u"
    using rep_context[OF rp dist xin, of 0] sub by simp
  have du: "distinct (addrs ?u)" using distinct_sub_at[OF dist, of x] sub by simp
  have nn: "parent n = par_of x None t" "height n = d"
    "rep (heap s) (left n) (Some x) l" "rep (heap s) (right n) (Some x) r'"
    using ry n by auto
  have rl: "rep (heap s2) (left n) (Some x) l"
    using nn(3) du by (subst rep_cong[where h = "heap s"]) (auto simp: h2)
  have rr: "rep (heap s2) (right n) (Some x) r'"
    using nn(4) du by (subst rep_cong[where h = "heap s"]) (auto simp: h2)
  have ru: "rep (heap s2) (Some x) (par_of x None t) ?u'"
    using rl rr nn(1,2) by (simp add: h2)
  have ad: "addrs (repl x ?u' t) = addrs t"
  proof -
    have "\<And>w. addrs w = addrs (sub_at x t) \<Longrightarrow> addrs (repl x w t) = addrs t"
      using xin by (induction t) auto
    then show ?thesis by (simp add: sub)
  qed
  have bnd: "\<forall>a. heap s2 a \<noteq> None \<longrightarrow> a < brk s2"
    using bound n rest(2) by (auto simp: h2)
  have rp2: "rep (heap s2) (mRoot s2) None (repl x ?u' t)"
  proof (cases "mRoot s = Some x")
    case True
    then have "root_of t = Some x" using rep_root[OF rp] by simp
    then have t: "t = ?u" using sub by (cases t) auto
    have "par_of x None t = None" by (simp add: t)
    then show ?thesis using ru True rest(1) by (simp add: t)
  next
    case False
    from rep_context[OF rp dist xin, of 0] False
    obtain q qn where q: "par_of x None t = Some q" "q \<notin> set (addrs (sub_at x t))"
      "heap s q = Some qn" "left qn = Some x \<or> right qn = Some x"
      by auto
    have qx: "q \<noteq> x" using q(2) sub by auto
    have hq: "heap s2 q = Some (if left qn = Some x then qn\<lparr>left := Some x\<rparr> else qn\<lparr>right := Some x\<rparr>)"
      using q(3,4) qx by (auto simp: h2)
    have fr: "\<forall>b. b \<notin> set (addrs (sub_at x t)) \<and> b \<noteq> q \<longrightarrow> heap s2 b = heap s b"
      by (auto simp: h2 sub)
    have "rep (heap s2) (mRoot s) None (repl x ?u' t)"
      using rep_repl[OF rp dist xin _ q(1,3) hq _ _ fr, of ?u'] False ru q(1) sub by simp
    then show ?thesis using rest(1) by simp
  qed
  show ?thesis
    unfolding repr_def using rp2 ad dist bnd rest(3) sz0 by simp
qed


lemma bst_sub_at: "bst w \<Longrightarrow> bst (sub_at y w)"
  by (induction w) (auto simp: bst_def sorted_wrt_append)

lemma DeleteItem_descend:
  assumes "rep (heap s) p par u" and "bst u" and "u \<noteq> Leaf" and "kp = last (keys u)"
  shows "DeleteItem p kp s = DeleteItem (Some (last (addrs u))) kp s"
  using assms
proof (induction u arbitrary: p par)
  case Leaf
  then show ?case by simp
next
  case (Node l a k v d r)
  obtain n where n: "heap s a = Some n" "p = Some a" "key n = k" "rep (heap s) (right n) (Some a) r"
    using Node.prems(1) by auto
  show ?case
  proof (cases "r = Leaf")
    case True
    then show ?thesis using n(2) by simp
  next
    case False
    have br: "bst r" and gt: "\<forall>y\<in>set (keys r). k < y"
      using Node.prems(2) by (auto simp: bst_def sorted_wrt_append)
    have kp: "kp = last (keys r)" using Node.prems(4) False by simp
    then have "kp \<in> set (keys r)" using False by (metis keys_Nil_iff last_in_set)
    then have k: "k < kp" using gt by simp
    have nk: "\<not> kp < k" using k by simp
    have "DeleteItem p kp s = DeleteItem (right n) kp s"
      by (subst DeleteItem.simps) (simp add: n(1,2,3) k nk)
    also have "\<dots> = DeleteItem (Some (last (addrs r))) kp s"
      using Node.IH(2)[OF n(4) br False kp] .
    finally show ?thesis using False by simp
  qed
qed

lemma DeleteItem_two_children:
  assumes r: "repr s t" and b: "bst t" and sub: "sub_at x t = Node l x k v d r'"
    and two: "l \<noteq> Leaf" "r' \<noteq> Leaf" and lst: "last (items l) = (ap, kp, vp)"
  shows "\<exists>s'. DeleteItem (Some x) k s = Some s'
           \<and> repr s' (repl x (Node (del_last l) x kp vp d r') t)
           \<and> heap s' ap = None \<and> ap \<noteq> x \<and> ap \<in> set (addrs t)
           \<and> (\<forall>b. b \<notin> set (addrs t) \<longrightarrow> heap s' b = heap s b)
           \<and> brk s' = brk s \<and> log s' = log s \<and> size_m s' = size_m s - 1
           \<and> Node_decrement (heap s) x = Some (Some ap)
           \<and> (\<exists>pn. heap s ap = Some pn \<and> key pn = kp \<and> val pn = vp)"
proof -
  have rp: "rep (heap s) (mRoot s) None t" and dist: "distinct (addrs t)"
    using r by (auto simp: repr_def)
  let ?u = "Node l x k v d r'" and ?u' = "Node l x kp vp d r'"
  have xin: "x \<in> set (addrs t)" using sub_at_Node_in[OF sub] by simp
  have ry: "rep (heap s) (Some x) (par_of x None t) ?u"
    using rep_context[OF rp dist xin, of 0] sub by simp
  then obtain n where n: "heap s x = Some n" "key n = k"
    "rep (heap s) (left n) (Some x) l" "rep (heap s) (right n) (Some x) r'" by auto
  have du: "distinct (addrs ?u)" using distinct_sub_at[OF dist, of x] sub by simp
  have usub: "set (addrs ?u) \<subseteq> set (addrs t)" using addrs_sub_at[of x t] sub by simp
  obtain al where al: "left n = Some al" using rep_root[OF n(3)] two(1) by (cases l) auto
  obtain ar where ar: "right n = Some ar" using rep_root[OF n(4)] two(2) by (cases r') auto
  have rl: "rep (heap s) (Some al) (Some x) l" using n(3) al by simp
  have ap: "ap = last (addrs l)" using last_addrs_items[OF two(1)] lst by simp
  have kpl: "kp = last (keys l)" using last_keys_items[OF two(1)] lst by simp
  have apl: "ap \<in> set (addrs l)" using ap two(1) by (metis addrs_Nil_iff last_in_set)
  have apx: "ap \<noteq> x" using apl du by auto
  have apt: "ap \<in> set (addrs t)" using apl usub by auto
  have "hd (rev_addrs l) = ap" using ap two(1) by (simp add: rev_addrs_rev hd_rev)
  then have dec: "Node_decrement (heap s) x = Some (Some ap)"
    using Node_last_rep[OF rl] by (simp add: Node_decrement_def n(1) al)
  have "(ap, kp, vp) \<in> set (items l)" using lst two(1) by (metis items_Nil_iff last_in_set)
  then obtain pn where pn: "heap s ap = Some pn" "key pn = kp" "val pn = vp"
    using rep_item[OF rl] by blast
  define s2 where "s2 = s\<lparr>heap := (heap s)(x \<mapsto> n\<lparr>val := vp, key := kp\<rparr>)\<rparr>"
  have r2: "repr s2 (repl x ?u' t)"
    by (rule overwrite_repr[OF r sub n(1)]) (simp_all add: s2_def)
  have step: "DeleteItem (Some x) k s = DeleteItem (Some al) kp s2"
    using apx
    by (subst DeleteItem.simps) (simp add: n(1,2) al ar dec pn s2_def Let_def)
  have rl2: "rep (heap s2) (Some al) (Some x) l"
    using rl du by (subst rep_cong[where h = "heap s"]) (auto simp: s2_def)
  have bu: "bst ?u" using bst_sub_at[OF b, of x] by (simp add: sub)
  then have bl: "bst l" by (auto simp: bst_def sorted_wrt_append)
  have desc: "DeleteItem (Some al) kp s2 = DeleteItem (Some ap) kp s2"
    using DeleteItem_descend[OF rl2 bl two(1) kpl] ap by simp
  have dl: "distinct (addrs l)" using du by simp
  from rightmost[OF two(1) dl lst]
  obtain lp dp where lp: "sub_at ap l = Node lp ap kp vp dp Leaf" "repl ap lp l = del_last l" by blast
  let ?t1 = "repl x ?u' t"
  have d1: "distinct (addrs ?t1)" using r2 by (simp add: repr_def)
  have sx1: "sub_at x ?t1 = ?u'"
    by (rule sub_at_repl_same[OF xin]) (simp_all add: sub)
  have "ap \<in> set (addrs (sub_at x ?t1))" using apl by (simp add: sx1)
  from sub_at_sub_at[OF d1 this] have sa1: "sub_at ap ?t1 = Node lp ap kp vp dp Leaf"
    using apx apl lp(1) by (simp add: sx1)
  from DeleteItem_splice[OF r2 sa1]
  obtain s' where s': "DeleteItem (Some ap) kp s2 = Some s'"
    "repr s' (repl ap lp ?t1)" "heap s' ap = None"
    "\<forall>b. b \<notin> set (addrs ?t1) \<longrightarrow> heap s' b = heap s2 b"
    "brk s' = brk s2" "log s' = log s2" "size_m s' = size_m s2 - 1"
    by (cases "lp = Leaf") auto
  have ad1: "set (addrs ?t1) = set (addrs t)"
    by (rule addrs_repl[OF xin]) (simp add: sub)
  have "repl ap lp ?t1 = repl x (repl ap lp ?u') t"
    by (rule repl_repl_inside[OF dist sub]) (use apl in simp_all)
  also have "repl ap lp ?u' = Node (del_last l) x kp vp d r'" using apx apl lp(2) by simp
  finally have fin: "repl ap lp ?t1 = repl x (Node (del_last l) x kp vp d r') t" .
  have fr: "\<forall>b. b \<notin> set (addrs t) \<longrightarrow> heap s' b = heap s b"
    using s'(4) ad1 xin by (auto simp: s2_def)
  show ?thesis
    using step desc s'(1,2,3,5,6,7) fin fr apx apt dec pn by (simp add: s2_def)
qed


section \<open>Erase\<close>

lemma items_decomp:
  "y \<in> set (addrs t) \<Longrightarrow>
   \<exists>pre post. items t = pre @ items (sub_at y t) @ post \<and> (\<forall>u. items (repl y u t) = pre @ items u @ post)"
proof (induction t)
  case Leaf
  then show ?case by simp
next
  case (Node l a k v d r)
  show ?case
  proof (cases "a = y")
    case True
    have "items (Node l a k v d r) = [] @ items (sub_at y (Node l a k v d r)) @ []
          \<and> (\<forall>u. items (repl y u (Node l a k v d r)) = [] @ items u @ [])"
      using True by simp
    then show ?thesis by blast
  next
    case ay: False
    show ?thesis
    proof (cases "y \<in> set (addrs l)")
      case True
      from Node.IH(1)[OF True] obtain pre post where
        pp: "items l = pre @ items (sub_at y l) @ post" "\<forall>u. items (repl y u l) = pre @ items u @ post"
        by blast
      have "items (Node l a k v d r) = pre @ items (sub_at y (Node l a k v d r)) @ (post @ (a, k, v) # items r)
          \<and> (\<forall>u. items (repl y u (Node l a k v d r)) = pre @ items u @ (post @ (a, k, v) # items r))"
        using ay True pp by simp
      then show ?thesis by blast
    next
      case False
      then have yr: "y \<in> set (addrs r)" using Node.prems ay by auto
      from Node.IH(2)[OF yr] obtain pre post where
        pp: "items r = pre @ items (sub_at y r) @ post" "\<forall>u. items (repl y u r) = pre @ items u @ post"
        by blast
      have "items (Node l a k v d r) = (items l @ (a, k, v) # pre) @ items (sub_at y (Node l a k v d r)) @ post
          \<and> (\<forall>u. items (repl y u (Node l a k v d r)) = (items l @ (a, k, v) # pre) @ items u @ post)"
        using ay False pp by simp
      then show ?thesis by blast
    qed
  qed
qed

lemma keys_erase_abs:
  assumes "sub_at x t = Node l x k v d r"
  shows "\<exists>A B. keys t = A @ k # B \<and> keys (erase_abs x t) = A @ B"
proof -
  have xin: "x \<in> set (addrs t)" using sub_at_Node_in[OF assms] by simp
  from items_decomp[OF xin] obtain pre post where
    pp: "items t = pre @ items (sub_at x t) @ post" "\<forall>u. items (repl x u t) = pre @ items u @ post"
    by blast
  let ?f = "map (fst \<circ> snd)"
  have kt: "keys t = (?f pre @ keys l) @ k # (keys r @ ?f post)"
    using pp(1) assms by (simp add: keys_items)
  have "keys (erase_abs x t) = (?f pre @ keys l) @ (keys r @ ?f post)"
  proof (cases "l \<noteq> Leaf \<and> r \<noteq> Leaf")
    case True
    obtain ap kp vp where lst: "last (items l) = (ap, kp, vp)" by (cases "last (items l)") auto
    have e: "erase_abs x t = repl x (Node (del_last l) x kp vp d r) t"
      using True lst by (simp add: erase_abs_def assms)
    have "items l \<noteq> []" using True by simp
    then have "butlast (items l) @ [(ap, kp, vp)] = items l" using lst by (metis append_butlast_last_id)
    then have "?f (butlast (items l) @ [(ap, kp, vp)]) = keys l" by (simp add: keys_items)
    then have "?f (butlast (items l)) @ [kp] = keys l" by simp
    then show ?thesis using pp(2) by (simp add: e keys_items items_del_last)
  next
    case False
    then have e: "erase_abs x t = repl x (if l \<noteq> Leaf then l else r) t"
      by (auto simp: erase_abs_def assms)
    show ?thesis using pp(2) False by (auto simp: e keys_items)
  qed
  with kt show ?thesis by blast
qed

lemma bst_erase_abs:
  assumes "bst t" and "sub_at x t = Node l x k v d r"
  shows "bst (erase_abs x t) \<and> set (keys (erase_abs x t)) = set (keys t) - {k}"
proof -
  from keys_erase_abs[OF assms(2)] obtain A B where
    ab: "keys t = A @ k # B" "keys (erase_abs x t) = A @ B" by blast
  have "sorted_wrt (<) (A @ k # B)" using assms(1) ab(1) by (simp add: bst_def)
  then have "sorted_wrt (<) (A @ B)" "k \<notin> set A" "k \<notin> set B"
    by (auto simp: sorted_wrt_append)
  then show ?thesis using ab by (auto simp: bst_def)
qed

lemma anc_in_repl: "y \<in> set (addrs t) \<Longrightarrow> set (anc y t) \<subseteq> set (addrs (repl y u t))"
  by (induction t) auto

lemma anc_subset: "set (anc y t) \<subseteq> set (addrs t)"
  by (induction t) auto

lemma addrs_del_last: "set (addrs (del_last t)) \<subseteq> set (addrs t)"
  by (induction t) auto

lemma erase_abs_repl:
  assumes "sub_at x t = Node l x k v d r"
  shows "\<exists>u. erase_abs x t = repl x u t \<and> set (addrs u) \<subseteq> set (addrs (sub_at x t))"
proof (cases "l \<noteq> Leaf \<and> r \<noteq> Leaf")
  case True
  obtain ap kp vp where lst: "last (items l) = (ap, kp, vp)" by (cases "last (items l)") auto
  have e: "erase_abs x t = repl x (Node (del_last l) x kp vp d r) t"
    using True lst by (simp add: erase_abs_def assms)
  have "set (addrs (Node (del_last l) x kp vp d r)) \<subseteq> set (addrs (sub_at x t))"
    using addrs_del_last[of l] by (auto simp: assms)
  with e show ?thesis by blast
next
  case False
  then have e: "erase_abs x t = repl x (if l \<noteq> Leaf then l else r) t"
    by (auto simp: erase_abs_def assms)
  have "set (addrs (if l \<noteq> Leaf then l else r)) \<subseteq> set (addrs (sub_at x t))"
    by (auto simp: assms)
  with e show ?thesis by blast
qed

lemma anc_in_erase_abs:
  assumes "sub_at x t = Node l x k v d r"
  shows "set (anc x t) \<subseteq> set (addrs (erase_abs x t))"
proof -
  from erase_abs_repl[OF assms] obtain u where u: "erase_abs x t = repl x u t" by blast
  have "x \<in> set (addrs t)" using sub_at_Node_in[OF assms] by simp
  from anc_in_repl[OF this, of u] show ?thesis by (simp add: u)
qed

lemma addrs_erase_abs_subset:
  assumes "sub_at x t = Node l x k v d r"
  shows "set (addrs (erase_abs x t)) \<subseteq> set (addrs t)"
proof -
  from erase_abs_repl[OF assms] obtain u where
    u: "erase_abs x t = repl x u t" "set (addrs u) \<subseteq> set (addrs (sub_at x t))" by blast
  from addrs_repl_subset[OF u(2)] show ?thesis by (simp add: u(1))
qed

lemma GetVisitedNodes_loop_None [simp]: "GetVisitedNodes_loop h None st = Some st"
  by (subst GetVisitedNodes_loop.simps) simp

lemma GetVisitedNodes_loop_rep:
  assumes "rep h p par t" and "distinct (addrs t)" and "x \<in> set (addrs t)" and "h x = Some nx"
  shows "GetVisitedNodes_loop h (parent nx) st = GetVisitedNodes_loop h par (anc x t @ st)"
  using assms
proof (induction t arbitrary: p par st)
  case Leaf
  then show ?case by simp
next
  case (Node l a k v d r)
  obtain n where n: "h a = Some n" "p = Some a" "parent n = par"
    "rep h (left n) (Some a) l" "rep h (right n) (Some a) r"
    using Node.prems(1) by auto
  have dist: "distinct (addrs l)" "distinct (addrs r)" "a \<notin> set (addrs l)" "a \<notin> set (addrs r)"
    using Node.prems(2) by auto
  have up: "\<And>st'. GetVisitedNodes_loop h (Some a) st' = GetVisitedNodes_loop h par (a # st')"
    by (subst GetVisitedNodes_loop.simps) (simp add: n(1,3))
  show ?case
  proof (cases "a = x")
    case True
    then show ?thesis using Node.prems(4) n by simp
  next
    case ax: False
    show ?thesis
    proof (cases "x \<in> set (addrs l)")
      case True
      from Node.IH(1)[OF n(4) dist(1) True Node.prems(4), of st]
      show ?thesis using ax True up by simp
    next
      case False
      then have xr: "x \<in> set (addrs r)" using Node.prems(3) ax by auto
      from Node.IH(2)[OF n(5) dist(2) xr Node.prems(4), of st]
      show ?thesis using ax False up by simp
    qed
  qed
qed

lemma GetVisitedNodes_repr:
  assumes "repr s t" and "x \<in> set (addrs t)"
  shows "GetVisitedNodes (heap s) x [] = Some (anc x t)"
proof -
  have rp: "rep (heap s) (mRoot s) None t" and dist: "distinct (addrs t)"
    using assms(1) by (auto simp: repr_def)
  obtain nx where nx: "heap s x = Some nx" using rep_dom[OF rp assms(2)] by auto
  have l: "GetVisitedNodes_loop (heap s) (parent nx) [] = Some (anc x t)"
    using GetVisitedNodes_loop_rep[OF rp dist assms(2) nx, of "[]"] by simp
  show ?thesis
  proof (cases "parent nx")
    case None
    then show ?thesis using l nx by (simp add: GetVisitedNodes_def)
  next
    case (Some q)
    then show ?thesis using l nx by (simp add: GetVisitedNodes_def)
  qed
qed

lemma DeleteItem_repr:
  assumes r: "repr s t" and b: "bst t" and sub: "sub_at x t = Node l x k v d r'"
  shows "\<exists>s'. DeleteItem (Some x) k s = Some s' \<and> repr s' (erase_abs x t)
           \<and> (\<forall>b. b \<notin> set (addrs t) \<longrightarrow> heap s' b = heap s b)
           \<and> brk s' = brk s \<and> log s' = log s \<and> size_m s' = size_m s - 1"
proof (cases "l \<noteq> Leaf \<and> r' \<noteq> Leaf")
  case True
  obtain ap kp vp where lst: "last (items l) = (ap, kp, vp)" by (cases "last (items l)") auto
  have e: "erase_abs x t = repl x (Node (del_last l) x kp vp d r') t"
    using True lst by (simp add: erase_abs_def sub)
  from DeleteItem_two_children[OF r b sub _ _ lst] True
  show ?thesis unfolding e by blast
next
  case False
  then have one: "l = Leaf \<or> r' = Leaf" by auto
  have e: "erase_abs x t = repl x (if l \<noteq> Leaf then l else r') t"
    using False by (auto simp: erase_abs_def sub)
  from DeleteItem_splice[OF r sub one]
  show ?thesis unfolding e by blast
qed

text \<open>The tree after \<open>erase\<close> of the node at \<open>x\<close>.\<close>

lemma AVLmap_erase_repr:
  assumes r: "repr s t" and b: "bst t" and sub: "sub_at x t = Node l x k v d r'"
  shows "\<exists>s'. AVLmap_erase (Some x) s = Some s'
           \<and> repr s' (bal_abs (anc x t) False (erase_abs x t))
           \<and> bst (bal_abs (anc x t) False (erase_abs x t))
           \<and> (\<forall>b. b \<notin> set (addrs t) \<longrightarrow> heap s' b = heap s b)
           \<and> brk s' = brk s \<and> size_m s' = size_m s - 1
           \<and> log s' = log s @ bal_events (anc x t) False (erase_abs x t)"
proof -
  have rp: "rep (heap s) (mRoot s) None t" and dist: "distinct (addrs t)"
    using r by (auto simp: repr_def)
  have xin: "x \<in> set (addrs t)" using sub_at_Node_in[OF sub] by simp
  have ry: "rep (heap s) (Some x) (par_of x None t) (Node l x k v d r')"
    using rep_context[OF rp dist xin, of 0] sub by simp
  then obtain n where n: "heap s x = Some n" "key n = k" by auto
  have g: "GetVisitedNodes (heap s) x [] = Some (anc x t)" using GetVisitedNodes_repr[OF r xin] .
  from DeleteItem_repr[OF r b sub]
  obtain s1 where s1: "DeleteItem (Some x) k s = Some s1" "repr s1 (erase_abs x t)"
    "\<forall>b. b \<notin> set (addrs t) \<longrightarrow> heap s1 b = heap s b"
    "brk s1 = brk s" "log s1 = log s" "size_m s1 = size_m s - 1" by blast
  from BalanceTree_repr[OF s1(2) anc_in_erase_abs[OF sub], of False]
  obtain s' where s': "BalanceTree (anc x t) False s1 = Some s'"
    "repr s' (bal_abs (anc x t) False (erase_abs x t))" "brk s' = brk s1"
    "log s' = log s1 @ bal_events (anc x t) False (erase_abs x t)"
    "\<forall>b. b \<notin> set (addrs (erase_abs x t)) \<longrightarrow> heap s' b = heap s1 b" by blast
  have run: "AVLmap_erase (Some x) s = Some s'"
    by (simp add: AVLmap_erase_def AVLmap_end_def g n s1(1) s'(1))
  have b': "bst (bal_abs (anc x t) False (erase_abs x t))"
    using bst_erase_abs[OF b sub] by (simp add: bst_def keys_items)
  have len: "length (addrs (bal_abs (anc x t) False (erase_abs x t))) = length (addrs (erase_abs x t))"
    by (simp add: set_addrs_items)
  have sz: "size_m s' = size_m s - 1"
    using s'(2) s1(2,6) len by (simp add: repr_def)
  have ea: "set (addrs (erase_abs x t)) \<subseteq> set (addrs t)"
    using addrs_erase_abs_subset[OF sub] .
  have fr: "\<forall>b. b \<notin> set (addrs t) \<longrightarrow> heap s' b = heap s b"
    using s'(5) s1(3) ea by auto
  show ?thesis using run s'(2) b' fr s'(3) s1(4,5) sz s'(4) by simp
qed


section \<open>Valid iterators\<close>

lemma find_abs_in: "find_abs x t = Some a \<Longrightarrow> a \<in> set (addrs t)"
  by (induction t) (auto split: if_splits)

lemma node_of_tree:
  assumes "repr s t" and "heap s x = Some n" and "AVLmap_find (key n) s = Some (Some x)"
  shows "\<exists>l d r. sub_at x t = Node l x (key n) (val n) d r
           \<and> rep (heap s) (left n) (Some x) l \<and> rep (heap s) (right n) (Some x) r"
proof -
  have rp: "rep (heap s) (mRoot s) None t" and dist: "distinct (addrs t)"
    using assms(1) by (auto simp: repr_def)
  have "find_abs (key n) t = Some x"
    using FindNode_rep[OF rp, of "key n"] assms(3) by (simp add: AVLmap_find_def)
  then have xin: "x \<in> set (addrs t)" by (rule find_abs_in)
  have "root_of (sub_at x t) = Some x" using sub_at_root[OF xin] .
  then obtain l k v d r where sub: "sub_at x t = Node l x k v d r" by (cases "sub_at x t") auto
  have "rep (heap s) (Some x) (par_of x None t) (Node l x k v d r)"
    using rep_context[OF rp dist xin, of 0] sub by simp
  then show ?thesis using assms(2) sub by auto
qed

lemma well_formed_erase:
  assumes "well_formed s" and "heap s x = Some n" and "AVLmap_find (key n) s = Some (Some x)"
  shows "\<exists>s'. AVLmap_erase (Some x) s = Some s' \<and> size_m s' = size_m s - 1 \<and> well_formed s'"
proof -
  obtain t where t: "repr s t" "bst t" using assms(1) by (auto simp: well_formed_def)
  from node_of_tree[OF t(1) assms(2,3)]
  obtain l d r where sub: "sub_at x t = Node l x (key n) (val n) d r" by blast
  from AVLmap_erase_repr[OF t sub]
  obtain s' where s': "AVLmap_erase (Some x) s = Some s'"
    "repr s' (bal_abs (anc x t) False (erase_abs x t))"
    "bst (bal_abs (anc x t) False (erase_abs x t))" "size_m s' = size_m s - 1" by blast
  have "well_formed s'" unfolding well_formed_def
    by (rule exI[of _ "bal_abs (anc x t) False (erase_abs x t)"]) (simp add: s'(2,3))
  with s'(1,4) show ?thesis by blast
qed

lemma erase_key_well_formed:
  assumes "well_formed s"
  shows "\<exists>s'. erase_key k s = Some s' \<and> well_formed s'"
proof -
  obtain t where t: "repr s t" "bst t" using assms by (auto simp: well_formed_def)
  have rp: "rep (heap s) (mRoot s) None t" using t(1) by (auto simp: repr_def)
  have f: "AVLmap_find k s = Some (find_abs k t)"
    using FindNode_rep[OF rp] by (simp add: AVLmap_find_def)
  show ?thesis
  proof (cases "find_abs k t")
    case None
    then show ?thesis using f assms by (simp add: erase_key_def AVLmap_erase_def AVLmap_end_def)
  next
    case (Some x)
    then have xin: "x \<in> set (addrs t)" by (rule find_abs_in)
    then obtain n where n: "heap s x = Some n" using rep_dom[OF rp] by blast
    have kin: "k \<in> set (keys t)" using Some find_abs_absent[of k t] by auto
    from find_abs_present[OF t(2) kin] Some obtain v where "(x, k, v) \<in> set (items t)" by auto
    from rep_item[OF rp this] n have "key n = k" by auto
    then have "AVLmap_find (key n) s = Some (Some x)" using f Some by simp
    from well_formed_erase[OF assms n this] show ?thesis using f Some by (auto simp: erase_key_def)
  qed
qed


lemma addrs_two_children:
  assumes dist: "distinct (addrs t)" and sub: "sub_at x t = Node l x k v d r"
    and l: "l \<noteq> Leaf" and lst: "last (items l) = (ap, kp, vp)"
  shows "set (addrs (repl x (Node (del_last l) x kp vp d r) t)) = set (addrs t) - {ap}"
    and "(x, kp, vp) \<in> set (items (repl x (Node (del_last l) x kp vp d r) t))"
proof -
  have xin: "x \<in> set (addrs t)" using sub_at_Node_in[OF sub] by simp
  from items_decomp[OF xin] obtain pre post where
    pp: "items t = pre @ items (sub_at x t) @ post" "\<forall>u. items (repl x u t) = pre @ items u @ post"
    by blast
  have il: "items l = butlast (items l) @ [(ap, kp, vp)]"
    using l lst by (metis append_butlast_last_id items_Nil_iff)
  let ?B = "butlast (items l)"
  have it: "items t = pre @ (?B @ [(ap, kp, vp)]) @ (x, k, v) # items r @ post"
    using pp(1) sub il by simp
  have it': "items (repl x (Node (del_last l) x kp vp d r) t) = pre @ ?B @ (x, kp, vp) # items r @ post"
    using pp(2) by (simp add: items_del_last)
  have "distinct (map fst (items t))" using dist by (simp add: set_addrs_items)
  then have "ap \<notin> fst ` set pre" "ap \<notin> fst ` set ?B" "ap \<noteq> x" "ap \<notin> fst ` set (items r)"
    "ap \<notin> fst ` set post"
    unfolding it by auto
  then show "set (addrs (repl x (Node (del_last l) x kp vp d r) t)) = set (addrs t) - {ap}"
    unfolding set_addrs_items it it' by auto
  show "(x, kp, vp) \<in> set (items (repl x (Node (del_last l) x kp vp d r) t))"
    unfolding it' by simp
qed

lemma erase_two_children:
  assumes r: "repr s t" and b: "bst t" and sub: "sub_at x t = Node l x k v d r'"
    and two: "l \<noteq> Leaf" "r' \<noteq> Leaf" and lst: "last (items l) = (ap, kp, vp)"
  shows "\<exists>s' n' pn. AVLmap_erase (Some x) s = Some s'
           \<and> Node_decrement (heap s) x = Some (Some ap)
           \<and> heap s ap = Some pn \<and> key pn = kp \<and> val pn = vp \<and> ap \<noteq> x
           \<and> heap s' x = Some n' \<and> key n' = kp \<and> val n' = vp
           \<and> heap s' ap = None \<and> dom (heap s') = dom (heap s) - {ap}"
proof -
  have rp: "rep (heap s) (mRoot s) None t" and dist: "distinct (addrs t)"
    using r by (auto simp: repr_def)
  have xin: "x \<in> set (addrs t)" using sub_at_Node_in[OF sub] by simp
  have ry: "rep (heap s) (Some x) (par_of x None t) (Node l x k v d r')"
    using rep_context[OF rp dist xin, of 0] sub by simp
  then obtain n where n: "heap s x = Some n" "key n = k" by auto
  have g: "GetVisitedNodes (heap s) x [] = Some (anc x t)" using GetVisitedNodes_repr[OF r xin] .
  let ?t1 = "repl x (Node (del_last l) x kp vp d r') t"
  have e: "erase_abs x t = ?t1" using two lst by (simp add: erase_abs_def sub)
  from DeleteItem_two_children[OF r b sub two lst]
  obtain s1 pn where s1: "DeleteItem (Some x) k s = Some s1" "repr s1 ?t1"
    "heap s1 ap = None" "ap \<noteq> x" "ap \<in> set (addrs t)"
    "\<forall>b. b \<notin> set (addrs t) \<longrightarrow> heap s1 b = heap s b"
    "Node_decrement (heap s) x = Some (Some ap)"
    "heap s ap = Some pn" "key pn = kp" "val pn = vp" by blast
  have sub1: "set (anc x t) \<subseteq> set (addrs ?t1)" using anc_in_erase_abs[OF sub] e by simp
  from BalanceTree_repr[OF s1(2) sub1, of False]
  obtain s' where s': "BalanceTree (anc x t) False s1 = Some s'"
    "repr s' (bal_abs (anc x t) False ?t1)"
    "\<forall>b. b \<notin> set (addrs ?t1) \<longrightarrow> heap s' b = heap s1 b" by blast
  have run: "AVLmap_erase (Some x) s = Some s'"
    by (simp add: AVLmap_erase_def AVLmap_end_def g n s1(1) s'(1))
  have a1: "set (addrs ?t1) = set (addrs t) - {ap}" using addrs_two_children(1)[OF dist sub two(1) lst] .
  have rp': "rep (heap s') (mRoot s') None (bal_abs (anc x t) False ?t1)"
    using s'(2) by (simp add: repr_def)
  have af: "set (addrs (bal_abs (anc x t) False ?t1)) = set (addrs ?t1)"
    by (simp add: set_addrs_items)
  have "(x, kp, vp) \<in> set (items (bal_abs (anc x t) False ?t1))"
    using addrs_two_children(2)[OF dist sub two(1) lst] by simp
  from rep_item[OF rp' this] obtain n' where n': "heap s' x = Some n'" "key n' = kp" "val n' = vp"
    by blast
  have fa: "heap s' ap = None" using s'(3) a1 s1(3) by simp
  have dm: "dom (heap s') = dom (heap s) - {ap}"
  proof (rule set_eqI)
    fix b
    show "b \<in> dom (heap s') \<longleftrightarrow> b \<in> dom (heap s) - {ap}"
    proof (cases "b \<in> set (addrs t)")
      case True
      then have hb: "heap s b \<noteq> None" using rep_dom[OF rp] by blast
      show ?thesis
      proof (cases "b = ap")
        case True
        then show ?thesis using fa by (auto simp: dom_def)
      next
        case False
        then have "b \<in> set (addrs (bal_abs (anc x t) False ?t1))" using True a1 af by simp
        then have "heap s' b \<noteq> None" using rep_dom[OF rp'] by blast
        then show ?thesis using hb False by (auto simp: dom_def)
      qed
    next
      case False
      then have "b \<notin> set (addrs ?t1)" "b \<noteq> ap" using a1 s1(5) by auto
      then have "heap s' b = heap s b" using s'(3) s1(6) False by simp
      then show ?thesis using \<open>b \<noteq> ap\<close> by (auto simp: dom_def)
    qed
  qed
  show ?thesis using run s1(7,8,9,10,4) n' fa dm by blast
qed


lemma examined_append [simp]: "examined (es @ fs) = examined es @ examined fs"
  by (induction es rule: examined.induct) simp_all

lemma examined_rotations: "list_all is_rotation es \<Longrightarrow> examined es = []"
  by (induction es rule: examined.induct) simp_all

lemma rebalance_events_rotations:
  "list_all is_rotation (rebalance_events y t) \<and> length (rebalance_events y t) \<le> 2"
  by (auto simp: rebalance_events_def events_left_heavy_def events_right_heavy_def
      split: tree.splits)

lemma rebalance_events_last:
  assumes "\<not> \<bar>bal_of y t\<bar> \<le> 1"
  shows "rebalance_events y t \<noteq> [] \<and> last (rebalance_events y t) \<in> {RotL y, RotR y}"
proof (cases "sub_at y t")
  case Leaf
  then show ?thesis using assms by (simp add: bal_of_def)
next
  case (Node l a k v d r)
  have hl: "ht l \<ge> - 1" "ht r \<ge> - 1" using ht_ge by auto
  show ?thesis
  proof (cases "bal_of y t > 1")
    case True
    then have "ht l \<noteq> - 1" using Node hl by (simp add: bal_of_def)
    then obtain ll b kb vb db lr where "l = Node ll b kb vb db lr" by (cases l) auto
    then show ?thesis using True Node by (simp add: rebalance_events_def events_left_heavy_def)
  next
    case False
    then have lt: "bal_of y t < - 1" using assms by linarith
    then have "ht r \<noteq> - 1" using Node hl by (simp add: bal_of_def)
    then obtain rl b kb vb db rr where "r = Node rl b kb vb db rr" by (cases r) auto
    then show ?thesis using lt Node by (simp add: rebalance_events_def events_right_heavy_def)
  qed
qed

lemma examined_rebalance_events [simp]: "examined (rebalance_events y t) = []"
  using rebalance_events_rotations[of y t] by (simp add: examined_rotations)

lemma examined_bal_events_erase: "examined (bal_events st False t) = st"
  by (induction st arbitrary: t) simp_all

lemma bal_events_insert:
  "\<exists>n rots. bal_events st True t = map Examine (take n st) @ rots
     \<and> list_all is_rotation rots \<and> length rots \<le> 2
     \<and> (if rots = [] then n = length st
        else 0 < n \<and> n \<le> length st
             \<and> last rots \<in> {RotL (st ! (n - 1)), RotR (st ! (n - 1))})"
proof (induction st)
  case Nil
  show ?case by (intro exI[of _ 0] exI[of _ "[]"]) simp
next
  case (Cons y st)
  show ?case
  proof (cases "\<bar>bal_of y t\<bar> \<le> 1")
    case True
    from Cons.IH obtain n rots where ih: "bal_events st True t = map Examine (take n st) @ rots"
      "list_all is_rotation rots" "length rots \<le> 2"
      "if rots = [] then n = length st
        else 0 < n \<and> n \<le> length st
             \<and> last rots \<in> {RotL (st ! (n - 1)), RotR (st ! (n - 1))}" by blast
    show ?thesis
    proof (intro exI[of _ "Suc n"] exI[of _ rots] conjI)
      show "bal_events (y # st) True t = map Examine (take (Suc n) (y # st)) @ rots"
        using True ih(1) by simp
      show "if rots = [] then Suc n = length (y # st)
        else 0 < Suc n \<and> Suc n \<le> length (y # st)
             \<and> last rots \<in> {RotL ((y # st) ! (Suc n - 1)), RotR ((y # st) ! (Suc n - 1))}"
        using ih(4) by (cases n) (auto split: if_splits)
    qed (use ih in simp_all)
  next
    case False
    show ?thesis
    proof (intro exI[of _ 1] exI[of _ "rebalance_events y t"] conjI)
      show "bal_events (y # st) True t = map Examine (take 1 (y # st)) @ rebalance_events y t"
        using False by simp
      show "if rebalance_events y t = [] then 1 = length (y # st)
        else 0 < (1::nat) \<and> 1 \<le> length (y # st)
             \<and> last (rebalance_events y t) \<in> {RotL ((y # st) ! (1 - 1)), RotR ((y # st) ! (1 - 1))}"
        using rebalance_events_last[OF False] by simp
    qed (use rebalance_events_rotations in blast)+
  qed
qed

lemma anc_ins0:
  "x \<notin> set (keys t) \<Longrightarrow> a' \<notin> set (addrs t) \<Longrightarrow> anc a' (ins0 a' x v' d' t) = path x t"
proof (induction t arbitrary: d')
  case Leaf
  show ?case by simp
next
  case (Node l a k v d r)
  have xk: "x \<noteq> k" "x \<notin> set (keys l)" "x \<notin> set (keys r)" using Node.prems(1) by auto
  have aa: "a \<noteq> a'" "a' \<notin> set (addrs l)" "a' \<notin> set (addrs r)" using Node.prems(2) by auto
  show ?case
  proof (cases "x < k")
    case True
    have "a' \<in> set (addrs (ins0 a' x v' (d + 1) l))" using addrs_ins0[OF xk(2)] by simp
    then show ?thesis using True aa Node.IH(1)[OF xk(2) aa(2)] by simp
  next
    case False
    then have gt: "x > k" using xk(1) by simp
    then show ?thesis using False aa Node.IH(2)[OF xk(3) aa(3)] by simp
  qed
qed

lemma InsertItem_repr:
  assumes r: "repr s t" and x: "x \<notin> set (keys t)"
  shows "\<exists>rt s1. InsertItem (mRoot s) (mRoot s) x dflt [] s = Some (rt, rev (path x t), s1)
           \<and> GetVisitedNodes (heap s1) (brk s) [] = Some (path x t)"
proof -
  have rp: "rep (heap s) (mRoot s) None t" and dist: "distinct (addrs t)"
    and bound: "\<forall>a. heap s a \<noteq> None \<longrightarrow> a < brk s"
    and sz: "size_m s = of_nat (length (addrs t))"
    using r by (auto simp: repr_def)
  let ?t1 = "ins0 (brk s) x dflt 0 t"
  have tl: "t = Leaf \<longrightarrow> mRoot s = None" using rp by auto
  have pre6: "case None :: addr option of None \<Rightarrow> (0::int) = 0 | Some q \<Rightarrow> (\<exists>qn. heap s q = Some qn \<and> 0 = height qn + 1)"
    by simp
  from InsertItem_rep[OF rp dist x bound tl pre6, of dflt "[]"]
  obtain s1 where s1: "InsertItem (mRoot s) (mRoot s) x dflt [] s = Some (root_of ?t1, rev (path x t), s1)"
    "rep (heap s1) (root_of ?t1) None ?t1"
    "\<forall>b. heap s1 b \<noteq> None \<longrightarrow> b < brk s1"
    "\<forall>b. b \<notin> set (addrs t) \<and> b \<noteq> brk s \<longrightarrow> heap s1 b = heap s b"
    "mRoot s1 = (if mRoot s = None then Some (brk s) else mRoot s)"
    "brk s1 = Suc (brk s)" "size_m s1 = size_m s + 1" "log s1 = log s"
    by (simp (no_asm_use)) blast
  have fresh: "brk s \<notin> set (addrs t)" using rep_dom[OF rp] bound by (metis less_irrefl)
  have m1: "mRoot s1 = root_of ?t1"
    using s1(5) rep_root[OF rp] by (cases t) auto
  have r1: "repr s1 ?t1"
    unfolding repr_def
    using s1(2,3,7) m1 distinct_ins0[OF dist fresh x] sz length_addrs_ins0[OF x]
    by simp
  have "brk s \<in> set (addrs ?t1)" using addrs_ins0[OF x] by simp
  from GetVisitedNodes_repr[OF r1 this]
  have "GetVisitedNodes (heap s1) (brk s) [] = Some (path x t)" using anc_ins0[OF x fresh] by simp
  then show ?thesis using s1(1) by blast
qed


section \<open>The height field holds the depth\<close>

lemma set_depths_idem [simp]: "set_depths d (set_depths d t) = set_depths d t"
  by (induction t arbitrary: d) auto

lemma set_depths_ins0:
  "set_depths d0 t = t \<Longrightarrow> set_depths d0 (ins0 a' x v' d0 t) = ins0 a' x v' d0 t"
  by (induction t arbitrary: d0) auto

lemma set_depths_sub_at:
  "set_depths d0 t = t \<Longrightarrow> set_depths (pdepth y d0 t) (sub_at y t) = sub_at y t"
  by (induction t arbitrary: d0) auto

lemma set_depths_repl:
  "set_depths d0 t = t \<Longrightarrow> set_depths (pdepth y d0 t) u = u \<Longrightarrow>
     set_depths d0 (repl y u t) = repl y u t"
  by (induction t arbitrary: d0) auto

lemma set_depths_rotR_root:
  "set_depths d0 t = t \<Longrightarrow> set_depths d0 (rotR_root d0 t) = rotR_root d0 t"
  by (induction d0 t rule: rotR_root.induct) (simp_all del: set_depths.simps)

lemma set_depths_rotL_root:
  "set_depths d0 t = t \<Longrightarrow> set_depths d0 (rotL_root d0 t) = rotL_root d0 t"
  by (induction d0 t rule: rotL_root.induct) (simp_all del: set_depths.simps)

lemma set_depths_rotR_at: "set_depths 0 t = t \<Longrightarrow> set_depths 0 (rotR_at y t) = rotR_at y t"
  unfolding rotR_at_def
  by (rule set_depths_repl, assumption, rule set_depths_rotR_root, rule set_depths_sub_at)

lemma set_depths_rotL_at: "set_depths 0 t = t \<Longrightarrow> set_depths 0 (rotL_at y t) = rotL_at y t"
  unfolding rotL_at_def
  by (rule set_depths_repl, assumption, rule set_depths_rotL_root, rule set_depths_sub_at)

lemma set_depths_rebalance_at:
  "set_depths 0 t = t \<Longrightarrow> set_depths 0 (rebalance_at y t) = rebalance_at y t"
  by (auto simp: rebalance_at_def fix_left_heavy_def fix_right_heavy_def
      set_depths_rotR_at set_depths_rotL_at split: tree.splits)

lemma set_depths_bal_abs:
  "set_depths 0 t = t \<Longrightarrow> set_depths 0 (bal_abs nodes ins t) = bal_abs nodes ins t"
proof (induction nodes arbitrary: t)
  case Nil
  then show ?case by simp
next
  case (Cons y nodes)
  show ?case
  proof (cases "\<bar>bal_of y t\<bar> \<le> 1")
    case True
    then show ?thesis using Cons.IH[OF Cons.prems] by simp
  next
    case False
    show ?thesis
    proof (cases ins)
      case True
      then show ?thesis using False set_depths_rebalance_at[OF Cons.prems, of y] by simp
    next
      case no: False
      then show ?thesis
        using False Cons.IH[OF set_depths_rebalance_at[OF Cons.prems, of y]] by simp
    qed
  qed
qed

lemma set_depths_insert_abs:
  "set_depths 0 t = t \<Longrightarrow> set_depths 0 (insert_abs a' x v' t) = insert_abs a' x v' t"
  unfolding insert_abs_def by (rule set_depths_bal_abs, rule set_depths_ins0)

lemma depth_of_node:
  "set_depths d0 t = t \<Longrightarrow> y \<in> set (addrs t) \<Longrightarrow>
     \<exists>l k v r. sub_at y t = Node l y k v (d0 + int (length (anc y t))) r"
proof (induction t arbitrary: d0)
  case Leaf
  then show ?case by simp
next
  case (Node l a k v d r)
  have e: "set_depths (d0 + 1) l = l" "d = d0" "set_depths (d0 + 1) r = r"
    using Node.prems(1) by auto
  show ?case
  proof (cases "a = y")
    case True
    then show ?thesis using e by simp
  next
    case False
    show ?thesis
    proof (cases "y \<in> set (addrs l)")
      case True
      from Node.IH(1)[OF e(1) True] show ?thesis using False True by auto
    next
      case no: False
      then have "y \<in> set (addrs r)" using Node.prems(2) False by simp
      from Node.IH(2)[OF e(3) this] show ?thesis using False no by auto
    qed
  qed
qed

text \<open>
  The invariant of a map built by insertions only: the store holds exactly the nodes of a
  search tree whose height fields are the depths.
\<close>

lemma operator_subscript_depths:
  assumes "repr s t" and "bst t" and "set_depths 0 t = t" and "dom (heap s) = set (addrs t)"
  shows "\<exists>a s' t'. operator_subscript dflt x s = Some (a, s') \<and> repr s' t' \<and> bst t'
           \<and> set_depths 0 t' = t' \<and> dom (heap s') = set (addrs t')"
proof (cases "x \<in> set (keys t)")
  case True
  from operator_subscript_present[OF assms(1,2) True, of dflt]
  obtain a v where "operator_subscript dflt x s = Some (a, s)" by blast
  then show ?thesis using assms by blast
next
  case False
  from operator_subscript_absent[OF assms(1,2) False, of dflt]
  obtain s' where s': "operator_subscript dflt x s = Some (brk s, s')"
    "repr s' (insert_abs (brk s) x dflt t)"
    "\<forall>b. b \<notin> set (addrs t) \<and> b \<noteq> brk s \<longrightarrow> heap s' b = heap s b"
    by blast
  let ?t' = "insert_abs (brk s) x dflt t"
  have a': "set (addrs ?t') = insert (brk s) (set (addrs t))"
    using items_insert_abs[OF False, of "brk s" dflt] by (simp add: set_addrs_items)
  have rp': "rep (heap s') (mRoot s') None ?t'" using s'(2) by (simp add: repr_def)
  have "dom (heap s') = set (addrs ?t')"
  proof (rule set_eqI)
    fix b
    show "b \<in> dom (heap s') \<longleftrightarrow> b \<in> set (addrs ?t')"
    proof (cases "b \<in> set (addrs ?t')")
      case True
      then have "heap s' b \<noteq> None" using rep_dom[OF rp'] by blast
      then show ?thesis using True by (auto simp: dom_def)
    next
      case no: False
      then have "b \<notin> set (addrs t)" "b \<noteq> brk s" using a' by auto
      then have "heap s' b = heap s b" "b \<notin> dom (heap s)" using s'(3) assms(4) by auto
      then show ?thesis using no by (auto simp: dom_def)
    qed
  qed
  then show ?thesis
    using s'(1,2) bst_insert_abs[OF assms(2) False, of "brk s" dflt]
      set_depths_insert_abs[OF assms(3), of "brk s" x dflt]
    by blast
qed

lemma insert_keys_depths:
  assumes "repr s t" and "bst t" and "set_depths 0 t = t" and "dom (heap s) = set (addrs t)"
  shows "\<exists>s' t'. insert_keys dflt ks s = Some s' \<and> repr s' t' \<and> bst t'
           \<and> set_depths 0 t' = t' \<and> dom (heap s') = set (addrs t')"
  using assms
proof (induction ks arbitrary: s t)
  case Nil
  then show ?case by auto
next
  case (Cons x ks)
  from operator_subscript_depths[OF Cons.prems, of dflt x]
  obtain a s1 t1 where s1: "operator_subscript dflt x s = Some (a, s1)" "repr s1 t1" "bst t1"
    "set_depths 0 t1 = t1" "dom (heap s1) = set (addrs t1)" by blast
  from Cons.IH[OF s1(2-5)]
  obtain s' t' where s': "insert_keys dflt ks s1 = Some s'" "repr s' t'" "bst t'"
    "set_depths 0 t' = t'" "dom (heap s') = set (addrs t')" by blast
  have "insert_keys dflt (x # ks) s = Some s'" using s1(1) s'(1) by simp
  then show ?case using s'(2-5) by blast
qed

lemma height_is_depth:
  assumes "repr s t" and "set_depths 0 t = t" and "y \<in> set (addrs t)"
  shows "\<exists>n. heap s y = Some n \<and> GetVisitedNodes (heap s) y [] = Some (anc y t)
           \<and> height n = int (length (anc y t))"
proof -
  have rp: "rep (heap s) (mRoot s) None t" and dist: "distinct (addrs t)"
    using assms(1) by (auto simp: repr_def)
  from depth_of_node[OF assms(2,3)]
  obtain l k v r where sub: "sub_at y t = Node l y k v (0 + int (length (anc y t))) r" by blast
  have "rep (heap s) (Some y) (par_of y None t) (sub_at y t)"
    using rep_context[OF rp dist assms(3), of 0] by simp
  then obtain n where "heap s y = Some n" "height n = int (length (anc y t))"
    unfolding sub by auto
  then show ?thesis using GetVisitedNodes_repr[OF assms(1,3)] by simp
qed


section \<open>Move construction and move assignment: results\<close>

text \<open>
  Claim C4, as stated, fails for move assignment: the operator swaps the two objects, so a
  source moved into a non-empty destination is not reset to empty; it holds the
  destination's former root and size.
\<close>

theorem move_assign_source_not_reset:
  "snd (snd (move_assign two_singletons \<lparr>mRoot = Some 0, size_m = 1\<rparr> \<lparr>mRoot = Some 1, size_m = 1\<rparr>))
     = \<lparr>mRoot = Some 0, size_m = 1\<rparr>
   \<and> snd (snd (move_assign two_singletons \<lparr>mRoot = Some 0, size_m = 1\<rparr> \<lparr>mRoot = Some 1, size_m = 1\<rparr>))
     \<noteq> \<lparr>mRoot = None, size_m = 0\<rparr>"
  by (simp add: move_assign_def)

text \<open>
  Claim C4, amended: move construction gives the destination the source's former root and
  size and resets the source to empty (null root, size 0); move assignment gives the
  destination the source's former root and size and gives the source the destination's
  former root and size; neither changes the store, so no node is copied or freed.
\<close>

theorem move_transfers_ownership:
  "move_construct h rhs = (h, \<lparr>mRoot = mRoot rhs, size_m = size_m rhs\<rparr>, \<lparr>mRoot = None, size_m = 0\<rparr>)
   \<and> move_assign h this rhs =
       (h, \<lparr>mRoot = mRoot rhs, size_m = size_m rhs\<rparr>, \<lparr>mRoot = mRoot this, size_m = size_m this\<rparr>)"
  by (simp add: move_construct_def move_assign_def)

section \<open>Scenarios\<close>

text \<open>
  Claim C9: inserting 10, 20 and then 30 into an empty map. While 30 is inserted, the
  ancestors are popped nearest first (the node of key 20 at address 1, then the node of key
  10 at address 0) and exactly one rotation is entered, a left rotation at the node of key
  10. Afterwards the root is the node of key 20, its left child is the node of key 10, its
  right child the node of key 30, and the balance factor of each of the three nodes is 0.
\<close>

theorem scenario_insert_10_20_30:
  "do {
     s2 \<leftarrow> insert_keys (0::int) [10, 20::int] AVLmap;
     (a, s3) \<leftarrow> operator_subscript 0 30 (s2\<lparr>log := []\<rparr>);
     b0 \<leftarrow> GetSubtreeBalance (heap s3) (Some 0);
     b1 \<leftarrow> GetSubtreeBalance (heap s3) (Some 1);
     b2 \<leftarrow> GetSubtreeBalance (heap s3) (Some 2);
     Some (map (map_option key \<circ> heap s2) [0, 1], log s3, mRoot s3, size_m s3,
           map (map_option (\<lambda>n. (key n, parent n, left n, right n)) \<circ> heap s3) [0, 1, 2],
           [b0, b1, b2])
   } =
   Some ([Some 10, Some 20], [Examine 1, Examine 0, RotL 0], Some 1, 3,
         [Some (10, Some 1, None, None), Some (20, None, Some 0, Some 2), Some (30, Some 1, None, None)],
         [0, 0, 0])"
  by code_simp

text \<open>
  Claim C1 fails on erase. The map is built by inserting 20, 10, 30, 40; it is a balanced
  search tree with root 20. Erasing the root (two children) copies the predecessor 10 into
  it and frees the leaf that held 10. The stack of ancestors of the root is empty, so
  nothing is rebalanced: the root is left with no left subtree and a right subtree of
  height 1, a balance factor of -2.
\<close>

theorem erase_two_children_unbalanced:
  "insert_keys (0::int) [20, 10, 30, 40::int] AVLmap \<noteq> None
   \<and> GetSubtreeBalance (heap (built [20, 10, 30, 40])) (mRoot (built [20, 10, 30, 40])) = Some (- 1)
   \<and> erase_key 20 (built [20, 10, 30, 40]) \<noteq> None
   \<and> log (the (erase_key 20 (built [20, 10, 30, 40]))) = []
   \<and> keys_forward (the (erase_key 20 (built [20, 10, 30, 40]))) = Some [10, 30, 40]
   \<and> GetSubtreeBalance (heap (the (erase_key 20 (built [20, 10, 30, 40]))))
        (mRoot (the (erase_key 20 (built [20, 10, 30, 40])))) = Some (- 2)"
  by code_simp

text \<open>
  Claim C2 fails on the order of rebalancing. The map is built by inserting 50, 30, 70, 20,
  40, 60, 80, 10, 25, 45, 90, 5 (no rotation happens; the root 50 is at address 0, the node
  of key 70 at address 2 and the leaf of key 60 at address 5). For the leaf 60,
  \<open>GetVisitedNodes\<close> leaves the root on top of the stack, above the parent 70. Erasing 60
  examines the root first, while it is still balanced, then rotates at 70, which lowers the
  right subtree of the root; the root is not examined again and is left with balance
  factor 2.
\<close>

theorem erase_rebalances_root_first:
  "insert_keys (0::int) [50, 30, 70, 20, 40, 60, 80, 10, 25, 45, 90, 5::int] AVLmap \<noteq> None
   \<and> AVLmap_find 60 (built [50, 30, 70, 20, 40, 60, 80, 10, 25, 45, 90, 5]) = Some (Some 5)
   \<and> GetVisitedNodes (heap (built [50, 30, 70, 20, 40, 60, 80, 10, 25, 45, 90, 5])) 5 [] = Some [0, 2]
   \<and> mRoot (built [50, 30, 70, 20, 40, 60, 80, 10, 25, 45, 90, 5]) = Some 0
   \<and> map_option parent (heap (built [50, 30, 70, 20, 40, 60, 80, 10, 25, 45, 90, 5]) 5) = Some (Some 2)
   \<and> erase_key 60 (built [50, 30, 70, 20, 40, 60, 80, 10, 25, 45, 90, 5]) \<noteq> None
   \<and> log (the (erase_key 60 (built [50, 30, 70, 20, 40, 60, 80, 10, 25, 45, 90, 5])))
       = [Examine 0, Examine 2, RotL 2]
   \<and> GetSubtreeBalance (heap (the (erase_key 60 (built [50, 30, 70, 20, 40, 60, 80, 10, 25, 45, 90, 5]))))
        (mRoot (the (erase_key 60 (built [50, 30, 70, 20, 40, 60, 80, 10, 25, 45, 90, 5])))) = Some 2"
  by code_simp

text \<open>
  Claim C3, as stated, fails: after inserting 10 and 20 the root (key 10, address 0) has the
  stored height 0 and the true subtree height 1, and the leaf (key 20, address 1) has the
  stored height 1 and the true subtree height 0.
\<close>

theorem stored_height_is_not_subtree_height:
  "insert_keys (0::int) [10, 20::int] AVLmap \<noteq> None
   \<and> map_option height (heap (built [10, 20]) 0) = Some 0
   \<and> GetSubtreeHeight (heap (built [10, 20])) (Some 0) = Some 1
   \<and> map_option height (heap (built [10, 20]) 1) = Some 1
   \<and> GetSubtreeHeight (heap (built [10, 20])) (Some 1) = Some 0"
  by code_simp

section \<open>The find-or-insert accessor: results\<close>

text \<open>
  Claim C6: on every well-formed map, \<open>operator[]\<close> returns a node that holds the key, and
  afterwards the key occurs exactly once in the in-order traversal. If the key was absent
  (\<open>find\<close> returned the end iterator), exactly one node was allocated, it holds the default
  value, no node was freed and \<open>size_\<close> grew by one; if the key was present, the state is
  unchanged. A second call with the same key on the resulting map returns the same node and
  leaves the map unchanged, so no later call changes \<open>size_\<close> or creates another node.
\<close>

theorem find_or_insert_at_most_one_node:
  assumes "well_formed s"
  shows "\<exists>a s' n ks.
           operator_subscript dflt k s = Some (a, s') \<and> well_formed s'
           \<and> heap s' a = Some n \<and> key n = k
           \<and> keys_forward s' = Some ks \<and> count_list ks k = 1
           \<and> (if AVLmap_find k s = Some None
                then a \<notin> dom (heap s) \<and> dom (heap s') = insert a (dom (heap s))
                     \<and> val n = dflt \<and> size_m s' = size_m s + 1
                else s' = s)
           \<and> operator_subscript dflt k s' = Some (a, s')"
proof -
  obtain t where t: "repr s t" "bst t" using assms by (auto simp: well_formed_def)
  have rp: "rep (heap s) (mRoot s) None t" and bound: "\<forall>a. heap s a \<noteq> None \<longrightarrow> a < brk s"
    using t(1) by (auto simp: repr_def)
  have fnd: "AVLmap_find k s = Some (find_abs k t)"
    using FindNode_rep[OF rp] by (simp add: AVLmap_find_def)
  show ?thesis
  proof (cases "k \<in> set (keys t)")
    case True
    from operator_subscript_present[OF t True, of dflt]
    obtain a v where av: "operator_subscript dflt k s = Some (a, s)" "(a, k, v) \<in> set (items t)"
      by blast
    obtain n where n: "heap s a = Some n" "key n = k" using rep_item[OF rp av(2)] by blast
    obtain a' v' where "find_abs k t = Some a'" using find_abs_present[OF t(2) True] by blast
    then have nf: "AVLmap_find k s \<noteq> Some None" using fnd by simp
    have kf: "keys_forward s = Some (keys t)" using keys_forward_repr[OF t(1)] .
    have cnt: "count_list (keys t) k = 1" using count_list_distinct[OF bst_distinct[OF t(2)] True] .
    show ?thesis
      using av(1) assms n kf cnt nf by (intro exI[of _ a] exI[of _ s] exI[of _ n] exI[of _ "keys t"]) simp
  next
    case False
    from operator_subscript_absent[OF t False, of dflt]
    obtain s' where s': "operator_subscript dflt k s = Some (brk s, s')"
      "repr s' (insert_abs (brk s) k dflt t)" "size_m s' = size_m s + 1"
      "\<forall>b. b \<notin> set (addrs t) \<and> b \<noteq> brk s \<longrightarrow> heap s' b = heap s b"
      by blast
    let ?t' = "insert_abs (brk s) k dflt t"
    have b': "bst ?t'" using bst_insert_abs[OF t(2) False] .
    have wf': "well_formed s'" unfolding well_formed_def using s'(2) b' by blast
    have rp': "rep (heap s') (mRoot s') None ?t'" using s'(2) by (simp add: repr_def)
    have mem: "(brk s, k, dflt) \<in> set (items ?t')" using items_insert_abs[OF False] by simp
    obtain n where n: "heap s' (brk s) = Some n" "key n = k" "val n = dflt"
      using rep_item[OF rp' mem] by blast
    have kin: "k \<in> set (keys ?t')" using keys_insert_abs[OF False] by simp
    have kf: "keys_forward s' = Some (keys ?t')" using keys_forward_repr[OF s'(2)] .
    have cnt: "count_list (keys ?t') k = 1" using count_list_distinct[OF bst_distinct[OF b'] kin] .
    have nf: "AVLmap_find k s = Some None" using fnd find_abs_absent[OF False] by simp
    have fresh: "brk s \<notin> dom (heap s)" using bound by (auto simp: dom_def)
    have ad': "set (addrs ?t') = insert (brk s) (set (addrs t))"
      using items_insert_abs[OF False, of "brk s" dflt] by (force simp: set_addrs_items)
    have dm: "dom (heap s') = insert (brk s) (dom (heap s))"
    proof (rule set_eqI)
      fix b
      show "b \<in> dom (heap s') \<longleftrightarrow> b \<in> insert (brk s) (dom (heap s))"
      proof (cases "b \<in> set (addrs t) \<or> b = brk s")
        case True
        then have "b \<in> set (addrs ?t')" using ad' by auto
        then have "heap s' b \<noteq> None" using rep_dom[OF rp'] by blast
        moreover have "b \<in> set (addrs t) \<Longrightarrow> heap s b \<noteq> None" using rep_dom[OF rp] by blast
        ultimately show ?thesis using True by (auto simp: dom_def)
      next
        case False
        then show ?thesis using s'(4) by (auto simp: dom_def)
      qed
    qed
    from operator_subscript_present[OF s'(2) b' kin, of dflt]
    obtain a2 v2 where a2: "operator_subscript dflt k s' = Some (a2, s')" "(a2, k, v2) \<in> set (items ?t')"
      by blast
    have "a2 = brk s" using bst_items_unique[OF b' mem a2(2)] by simp
    then have again: "operator_subscript dflt k s' = Some (brk s, s')" using a2(1) by simp
    show ?thesis
      using s'(1,3) wf' n kf cnt nf fresh dm again
      by (intro exI[of _ "brk s"] exI[of _ s'] exI[of _ n] exI[of _ "keys ?t'"]) simp
  qed
qed

theorem find_or_insert_at_most_one_node_witness:
  "well_formed (built [20, 10, 30])
   \<and> (\<exists>a s' n ks.
           operator_subscript 7 40 (built [20, 10, 30]) = Some (a, s') \<and> well_formed s'
           \<and> heap s' a = Some n \<and> key n = 40
           \<and> keys_forward s' = Some ks \<and> count_list ks 40 = 1
           \<and> a \<notin> dom (heap (built [20, 10, 30])) \<and> dom (heap s') = insert a (dom (heap (built [20, 10, 30])))
           \<and> val n = 7 \<and> size_m s' = size_m (built [20, 10, 30]) + 1
           \<and> operator_subscript 7 40 s' = Some (a, s'))
   \<and> AVLmap_find 40 (built [20, 10, 30]) = Some None
   \<and> size_m (built [20, 10, 30]) = 3
   \<and> map_option (size_m \<circ> snd) (operator_subscript 7 40 (built [20, 10, 30])) = Some 4
   \<and> map_option (size_m \<circ> snd)
         (Option.bind (operator_subscript 7 40 (built [20, 10, 30])) (\<lambda>(a, s'). operator_subscript 7 40 s'))
       = Some 4"
proof -
  have f: "AVLmap_find 40 (built [20, 10, 30]) = Some None" by code_simp
  have e: "size_m (built [20, 10, 30]) = 3"
    "map_option (size_m \<circ> snd) (operator_subscript 7 40 (built [20, 10, 30])) = Some 4"
    "map_option (size_m \<circ> snd)
         (Option.bind (operator_subscript 7 40 (built [20, 10, 30])) (\<lambda>(a, s'). operator_subscript 7 40 s'))
       = Some 4"
    by code_simp+
  show ?thesis
    using find_or_insert_at_most_one_node[OF well_formed_built, of 7 40 "[20, 10, 30]"] f e well_formed_built[of "[20, 10, 30]"]
    by simp
qed


section \<open>Iteration: results\<close>

text \<open>
  Claim C8: after inserting any list of distinct keys into an empty map, the forward
  traversal from \<open>begin()\<close> to \<open>end()\<close> yields exactly the inserted keys, each once, in
  strictly ascending order, and the backward traversal from \<open>last(root)\<close> through
  \<open>Node::decrement\<close> yields the same keys in strictly descending order.
\<close>

theorem iteration_yields_sorted_keys:
  assumes "distinct ks"
  shows "\<exists>s xs. insert_keys dflt ks AVLmap = Some s
           \<and> keys_forward s = Some xs \<and> keys_backward s = Some (rev xs)
           \<and> sorted_wrt (<) xs \<and> sorted_wrt (>) (rev xs)
           \<and> set xs = set ks \<and> length xs = length ks"
proof -
  from insert_keys_repr[OF repr_AVLmap, of dflt ks]
  obtain s t where st: "insert_keys dflt ks AVLmap = Some s" "repr s t" "bst t"
    "set (keys t) = set (keys (Leaf :: ('a, 'b) tree)) \<union> set ks"
    by (auto simp: bst_def)
  have f: "keys_forward s = Some (keys t)" using keys_forward_repr[OF st(2)] .
  have b: "keys_backward s = Some (rev (keys t))" using keys_backward_repr[OF st(2)] .
  have srt: "sorted_wrt (<) (keys t)" using st(3) by (simp add: bst_def)
  have srt': "sorted_wrt (>) (rev (keys t))" using srt by (simp add: sorted_wrt_rev)
  have set: "set (keys t) = set ks" using st(4) by simp
  have "distinct (keys t)" using bst_distinct[OF st(3)] .
  then have "length (keys t) = card (set ks)" using set distinct_card by fastforce
  then have len: "length (keys t) = length ks" using assms distinct_card by fastforce
  show ?thesis using st(1) f b srt srt' set len by blast
qed

theorem iteration_yields_sorted_keys_witness:
  "distinct [30, 10, 50, 20, 40 :: int]
   \<and> (\<exists>s xs. insert_keys (0::int) [30, 10, 50, 20, 40 :: int] AVLmap = Some s
           \<and> keys_forward s = Some xs \<and> keys_backward s = Some (rev xs)
           \<and> sorted_wrt (<) xs \<and> sorted_wrt (>) (rev xs)
           \<and> set xs = set [30, 10, 50, 20, 40] \<and> length xs = length [30, 10, 50, 20, 40 :: int])
   \<and> keys_forward (built [30, 10, 50, 20, 40]) = Some [10, 20, 30, 40, 50]
   \<and> keys_backward (built [30, 10, 50, 20, 40]) = Some [50, 40, 30, 20, 10]"
proof -
  have d: "distinct [30, 10, 50, 20, 40 :: int]" by simp
  have e: "keys_forward (built [30, 10, 50, 20, 40]) = Some [10, 20, 30, 40, 50]"
    "keys_backward (built [30, 10, 50, 20, 40]) = Some [50, 40, 30, 20, 10]"
    by code_simp+
  show ?thesis
    using iteration_yields_sorted_keys[OF d, of "0::int"] d e by simp
qed


section \<open>Erase: results\<close>

text \<open>
  Claim C7: erasing the end iterator returns the map unchanged; on a well-formed map,
  erasing an iterator that designates one of its nodes (the node \<open>find\<close> returns for its
  key) returns normally, leaves a well-formed map and decreases \<open>size_\<close> by exactly 1.
\<close>

theorem erase_end_is_noop_and_erase_decrements_size:
  assumes "well_formed s"
  shows "AVLmap_erase AVLmap_end s = Some s
         \<and> (\<forall>x n. heap s x = Some n \<and> AVLmap_find (key n) s = Some (Some x) \<longrightarrow>
               (\<exists>s'. AVLmap_erase (Some x) s = Some s' \<and> size_m s' = size_m s - 1
                     \<and> well_formed s'))"
proof -
  have "AVLmap_erase AVLmap_end s = Some s" by (simp add: AVLmap_erase_def)
  moreover have "\<forall>x n. heap s x = Some n \<and> AVLmap_find (key n) s = Some (Some x) \<longrightarrow>
               (\<exists>s'. AVLmap_erase (Some x) s = Some s' \<and> size_m s' = size_m s - 1
                     \<and> well_formed s')"
    using well_formed_erase[OF assms] by blast
  ultimately show ?thesis by blast
qed

theorem erase_end_is_noop_and_erase_decrements_size_witness:
  "well_formed (built [20, 10, 30, 40])
   \<and> AVLmap_erase AVLmap_end (built [20, 10, 30, 40]) = Some (built [20, 10, 30, 40])
   \<and> map_option key (heap (built [20, 10, 30, 40]) 2) = Some 30
   \<and> AVLmap_find 30 (built [20, 10, 30, 40]) = Some (Some 2)
   \<and> (\<exists>s'. AVLmap_erase (Some 2) (built [20, 10, 30, 40]) = Some s'
           \<and> size_m s' = size_m (built [20, 10, 30, 40]) - 1 \<and> well_formed s')
   \<and> size_m (built [20, 10, 30, 40]) = 4
   \<and> map_option size_m (AVLmap_erase (Some 2) (built [20, 10, 30, 40])) = Some 3"
proof -
  have e: "map_option key (heap (built [20, 10, 30, 40]) 2) = Some 30"
    "AVLmap_find 30 (built [20, 10, 30, 40]) = Some (Some 2)"
    "size_m (built [20, 10, 30, 40]) = 4"
    "map_option size_m (AVLmap_erase (Some 2) (built [20, 10, 30, 40])) = Some 3"
    by code_simp+
  obtain n where n: "heap (built [20, 10, 30, 40]) 2 = Some n" "key n = 30" using e(1) by auto
  have f: "AVLmap_find (key n) (built [20, 10, 30, 40]) = Some (Some 2)" using e(2) n(2) by simp
  from erase_end_is_noop_and_erase_decrements_size[OF well_formed_built, of "[20, 10, 30, 40]"] n(1) f
  have "AVLmap_erase AVLmap_end (built [20, 10, 30, 40]) = Some (built [20, 10, 30, 40])"
    "\<exists>s'. AVLmap_erase (Some 2) (built [20, 10, 30, 40]) = Some s'
           \<and> size_m s' = size_m (built [20, 10, 30, 40]) - 1 \<and> well_formed s'"
    by blast+
  then show ?thesis using e well_formed_built[of "[20, 10, 30, 40]"] by simp
qed


text \<open>
  Claim C10: on a well-formed map, erasing an iterator whose node has two children returns
  normally. The predecessor \<open>p\<close> that \<open>Node::decrement\<close> finds is another node; after the
  erase the node the iterator designated is still allocated and holds the key and the
  value the predecessor had, and the predecessor's node is the one, and the only one, that
  was freed.
\<close>

theorem erase_two_children_frees_predecessor:
  assumes "well_formed s" and "heap s x = Some n" and "AVLmap_find (key n) s = Some (Some x)"
    and "left n \<noteq> None" and "right n \<noteq> None"
  shows "\<exists>s' p pn n'. AVLmap_erase (Some x) s = Some s'
           \<and> Node_decrement (heap s) x = Some (Some p) \<and> heap s p = Some pn \<and> p \<noteq> x
           \<and> heap s' x = Some n' \<and> key n' = key pn \<and> val n' = val pn
           \<and> heap s' p = None \<and> dom (heap s') = dom (heap s) - {p}"
proof -
  obtain t where t: "repr s t" "bst t" using assms(1) by (auto simp: well_formed_def)
  from node_of_tree[OF t(1) assms(2,3)]
  obtain l d r where sub: "sub_at x t = Node l x (key n) (val n) d r"
    and lr: "rep (heap s) (left n) (Some x) l" "rep (heap s) (right n) (Some x) r" by blast
  have two: "l \<noteq> Leaf" "r \<noteq> Leaf" using lr assms(4,5) by auto
  obtain ap kp vp where lst: "last (items l) = (ap, kp, vp)" by (cases "last (items l)") auto
  from erase_two_children[OF t sub two lst]
  obtain s' n' pn where "AVLmap_erase (Some x) s = Some s'"
    "Node_decrement (heap s) x = Some (Some ap)"
    "heap s ap = Some pn" "key pn = kp" "val pn = vp" "ap \<noteq> x"
    "heap s' x = Some n'" "key n' = kp" "val n' = vp"
    "heap s' ap = None" "dom (heap s') = dom (heap s) - {ap}" by blast
  then show ?thesis by (intro exI[of _ s'] exI[of _ ap] exI[of _ pn] exI[of _ n']) simp
qed

theorem erase_two_children_frees_predecessor_witness:
  "well_formed (built [20, 10, 30])
   \<and> map_option (\<lambda>n. (key n, left n, right n)) (heap (built [20, 10, 30]) 0) = Some (20, Some 1, Some 2)
   \<and> AVLmap_find 20 (built [20, 10, 30]) = Some (Some 0)
   \<and> (\<exists>s' p pn n'. AVLmap_erase (Some 0) (built [20, 10, 30]) = Some s'
           \<and> Node_decrement (heap (built [20, 10, 30])) 0 = Some (Some p)
           \<and> heap (built [20, 10, 30]) p = Some pn \<and> p \<noteq> 0
           \<and> heap s' 0 = Some n' \<and> key n' = key pn \<and> val n' = val pn
           \<and> heap s' p = None \<and> dom (heap s') = dom (heap (built [20, 10, 30])) - {p})
   \<and> Node_decrement (heap (built [20, 10, 30])) 0 = Some (Some 1)
   \<and> map_option key (heap (built [20, 10, 30]) 1) = Some 10
   \<and> map_option (\<lambda>s'. (map_option key (heap s' 0), heap s' 1 = None, mRoot s', size_m s'))
        (AVLmap_erase (Some 0) (built [20, 10, 30])) = Some (Some 10, True, Some 0, 2)"
proof -
  have e: "map_option (\<lambda>n. (key n, left n, right n)) (heap (built [20, 10, 30]) 0) = Some (20, Some 1, Some 2)"
    "AVLmap_find 20 (built [20, 10, 30]) = Some (Some 0)"
    "Node_decrement (heap (built [20, 10, 30])) 0 = Some (Some 1)"
    "map_option key (heap (built [20, 10, 30]) 1) = Some 10"
    "map_option (\<lambda>s'. (map_option key (heap s' 0), heap s' 1 = None, mRoot s', size_m s'))
        (AVLmap_erase (Some 0) (built [20, 10, 30])) = Some (Some 10, True, Some 0, 2)"
    by code_simp+
  obtain n where n: "heap (built [20, 10, 30]) 0 = Some n" "key n = 20" "left n = Some 1" "right n = Some 2"
    using e(1) by auto
  have f: "AVLmap_find (key n) (built [20, 10, 30]) = Some (Some 0)" using e(2) n(2) by simp
  have "\<exists>s' p pn n'. AVLmap_erase (Some 0) (built [20, 10, 30]) = Some s'
           \<and> Node_decrement (heap (built [20, 10, 30])) 0 = Some (Some p)
           \<and> heap (built [20, 10, 30]) p = Some pn \<and> p \<noteq> 0
           \<and> heap s' 0 = Some n' \<and> key n' = key pn \<and> val n' = val pn
           \<and> heap s' p = None \<and> dom (heap s') = dom (heap (built [20, 10, 30])) - {p}"
    by (rule erase_two_children_frees_predecessor[OF well_formed_built n(1) f]) (simp_all add: n)
  then show ?thesis using e well_formed_built[of "[20, 10, 30]"] by simp
qed


section \<open>Rebalancing: which ancestors are examined\<close>

text \<open>
  Claim C5: on a well-formed map, \<open>operator[]\<close> on an absent key hands \<open>BalanceTree\<close> the
  stack built by \<open>InsertItem\<close>, which holds the ancestors of the new node with the parent on
  top and the root at the bottom (it is the reverse of the chain \<open>GetVisitedNodes\<close> collects
  for the new node). The history of the call is: the first \<open>n\<close> nodes of that stack examined
  in stack order, followed by at most two rotation events (a single or a double rotation)
  that end with a rotation at the last node examined; nothing is examined after a rotation,
  and without a rotation the whole stack is examined. \<open>erase\<close> of a node of the map
  examines every node that \<open>GetVisitedNodes\<close> collected for it, whatever rotations happen
  in between.
\<close>

theorem insert_stops_after_first_rotation_erase_examines_all:
  assumes "well_formed s"
  shows "(AVLmap_find k s = Some None \<longrightarrow>
            (\<exists>rt stack s1 s' n rots.
               InsertItem (mRoot s) (mRoot s) k dflt [] s = Some (rt, stack, s1)
               \<and> GetVisitedNodes (heap s1) (brk s) [] = Some (rev stack)
               \<and> operator_subscript dflt k s = Some (brk s, s')
               \<and> log s' = log s @ map Examine (take n stack) @ rots
               \<and> list_all is_rotation rots \<and> length rots \<le> 2
               \<and> (if rots = [] then n = length stack
                  else 0 < n \<and> n \<le> length stack
                       \<and> last rots \<in> {RotL (stack ! (n - 1)), RotR (stack ! (n - 1))})))
       \<and> (heap s x = Some nd \<and> AVLmap_find (key nd) s = Some (Some x) \<longrightarrow>
            (\<exists>chain s'. GetVisitedNodes (heap s) x [] = Some chain
               \<and> AVLmap_erase (Some x) s = Some s'
               \<and> take (length (log s)) (log s') = log s
               \<and> examined (drop (length (log s)) (log s')) = chain))"
proof (intro conjI impI)
  obtain t where t: "repr s t" "bst t" using assms by (auto simp: well_formed_def)
  have rp: "rep (heap s) (mRoot s) None t" using t(1) by (auto simp: repr_def)
  {
    assume "AVLmap_find k s = Some None"
    then have "find_abs k t = None" using FindNode_rep[OF rp, of k] by (simp add: AVLmap_find_def)
    then have x: "k \<notin> set (keys t)" using find_abs_present[OF t(2), of k] by auto
    from InsertItem_repr[OF t(1) x, of dflt]
    obtain rt s1 where s1: "InsertItem (mRoot s) (mRoot s) k dflt [] s = Some (rt, rev (path k t), s1)"
      "GetVisitedNodes (heap s1) (brk s) [] = Some (path k t)" by blast
    from operator_subscript_absent[OF t x, of dflt]
    obtain s' where s': "operator_subscript dflt k s = Some (brk s, s')"
      "log s' = log s @ bal_events (rev (path k t)) True (ins0 (brk s) k dflt 0 t)" by blast
    from bal_events_insert[of "rev (path k t)" "ins0 (brk s) k dflt 0 t"]
    obtain n rots where nr:
      "bal_events (rev (path k t)) True (ins0 (brk s) k dflt 0 t) = map Examine (take n (rev (path k t))) @ rots"
      "list_all is_rotation rots" "length rots \<le> 2"
      "if rots = [] then n = length (rev (path k t))
        else 0 < n \<and> n \<le> length (rev (path k t))
             \<and> last rots \<in> {RotL (rev (path k t) ! (n - 1)), RotR (rev (path k t) ! (n - 1))}"
      by blast
    show "\<exists>rt stack s1 s' n rots.
               InsertItem (mRoot s) (mRoot s) k dflt [] s = Some (rt, stack, s1)
               \<and> GetVisitedNodes (heap s1) (brk s) [] = Some (rev stack)
               \<and> operator_subscript dflt k s = Some (brk s, s')
               \<and> log s' = log s @ map Examine (take n stack) @ rots
               \<and> list_all is_rotation rots \<and> length rots \<le> 2
               \<and> (if rots = [] then n = length stack
                  else 0 < n \<and> n \<le> length stack
                       \<and> last rots \<in> {RotL (stack ! (n - 1)), RotR (stack ! (n - 1))})"
      apply (rule exI[of _ rt], rule exI[of _ "rev (path k t)"], rule exI[of _ s1],
          rule exI[of _ s'], rule exI[of _ n], rule exI[of _ rots])
      using s1 s' nr by simp
  }
  {
    assume a: "heap s x = Some nd \<and> AVLmap_find (key nd) s = Some (Some x)"
    from node_of_tree[OF t(1)] a
    obtain l d r where sub: "sub_at x t = Node l x (key nd) (val nd) d r" by blast
    have xin: "x \<in> set (addrs t)" using sub_at_Node_in[OF sub] by simp
    have g: "GetVisitedNodes (heap s) x [] = Some (anc x t)" using GetVisitedNodes_repr[OF t(1) xin] .
    from AVLmap_erase_repr[OF t sub]
    obtain s' where s': "AVLmap_erase (Some x) s = Some s'"
      "log s' = log s @ bal_events (anc x t) False (erase_abs x t)" by blast
    show "\<exists>chain s'. GetVisitedNodes (heap s) x [] = Some chain
               \<and> AVLmap_erase (Some x) s = Some s'
               \<and> take (length (log s)) (log s') = log s
               \<and> examined (drop (length (log s)) (log s')) = chain"
      using g s' by (simp add: examined_bal_events_erase)
  }
qed

theorem insert_stops_after_first_rotation_erase_examines_all_witness:
  "well_formed (built [50, 30, 70, 20])
   \<and> AVLmap_find 10 (built [50, 30, 70, 20]) = Some None
   \<and> (\<exists>rt stack s1 s' n rots.
         InsertItem (mRoot (built [50, 30, 70, 20])) (mRoot (built [50, 30, 70, 20])) 10 0 []
           (built [50, 30, 70, 20]) = Some (rt, stack, s1)
         \<and> GetVisitedNodes (heap s1) (brk (built [50, 30, 70, 20])) [] = Some (rev stack)
         \<and> operator_subscript 0 10 (built [50, 30, 70, 20]) = Some (brk (built [50, 30, 70, 20]), s')
         \<and> log s' = log (built [50, 30, 70, 20]) @ map Examine (take n stack) @ rots
         \<and> list_all is_rotation rots \<and> length rots \<le> 2
         \<and> (if rots = [] then n = length stack
            else 0 < n \<and> n \<le> length stack
                 \<and> last rots \<in> {RotL (stack ! (n - 1)), RotR (stack ! (n - 1))}))
   \<and> map_option (\<lambda>(rt, stack, s1). stack)
        (InsertItem (mRoot (built [50, 30, 70, 20])) (mRoot (built [50, 30, 70, 20])) 10 0 []
           (built [50, 30, 70, 20])) = Some [3, 1, 0]
   \<and> map_option (\<lambda>(a, s'). log s') (operator_subscript 0 10 (built [50, 30, 70, 20]))
       = Some [Examine 3, Examine 1, RotR 1]
   \<and> map_option key (heap (built [50, 30, 70, 20]) 3) = Some 20
   \<and> AVLmap_find 20 (built [50, 30, 70, 20]) = Some (Some 3)
   \<and> (\<exists>chain s'. GetVisitedNodes (heap (built [50, 30, 70, 20])) 3 [] = Some chain
         \<and> AVLmap_erase (Some 3) (built [50, 30, 70, 20]) = Some s'
         \<and> take (length (log (built [50, 30, 70, 20]))) (log s') = log (built [50, 30, 70, 20])
         \<and> examined (drop (length (log (built [50, 30, 70, 20]))) (log s')) = chain)
   \<and> GetVisitedNodes (heap (built [50, 30, 70, 20])) 3 [] = Some [0, 1]
   \<and> map_option log (AVLmap_erase (Some 3) (built [50, 30, 70, 20])) = Some [Examine 0, Examine 1]"
proof -
  have e: "AVLmap_find 10 (built [50, 30, 70, 20]) = Some None"
    "map_option (\<lambda>(rt, stack, s1). stack)
        (InsertItem (mRoot (built [50, 30, 70, 20])) (mRoot (built [50, 30, 70, 20])) 10 0 []
           (built [50, 30, 70, 20])) = Some [3, 1, 0]"
    "map_option (\<lambda>(a, s'). log s') (operator_subscript 0 10 (built [50, 30, 70, 20]))
       = Some [Examine 3, Examine 1, RotR 1]"
    "map_option key (heap (built [50, 30, 70, 20]) 3) = Some 20"
    "AVLmap_find 20 (built [50, 30, 70, 20]) = Some (Some 3)"
    "GetVisitedNodes (heap (built [50, 30, 70, 20])) 3 [] = Some [0, 1]"
    "map_option log (AVLmap_erase (Some 3) (built [50, 30, 70, 20])) = Some [Examine 0, Examine 1]"
    by code_simp+
  obtain nd where nd: "heap (built [50, 30, 70, 20]) 3 = Some nd" "key nd = 20" using e(4) by auto
  have f: "AVLmap_find (key nd) (built [50, 30, 70, 20]) = Some (Some 3)" using e(5) nd(2) by simp
  from insert_stops_after_first_rotation_erase_examines_all[OF well_formed_built,
      of 10 "[50, 30, 70, 20]" 0 3 nd] e(1) nd(1) f
  have "\<exists>rt stack s1 s' n rots.
         InsertItem (mRoot (built [50, 30, 70, 20])) (mRoot (built [50, 30, 70, 20])) 10 0 []
           (built [50, 30, 70, 20]) = Some (rt, stack, s1)
         \<and> GetVisitedNodes (heap s1) (brk (built [50, 30, 70, 20])) [] = Some (rev stack)
         \<and> operator_subscript 0 10 (built [50, 30, 70, 20]) = Some (brk (built [50, 30, 70, 20]), s')
         \<and> log s' = log (built [50, 30, 70, 20]) @ map Examine (take n stack) @ rots
         \<and> list_all is_rotation rots \<and> length rots \<le> 2
         \<and> (if rots = [] then n = length stack
            else 0 < n \<and> n \<le> length stack
                 \<and> last rots \<in> {RotL (stack ! (n - 1)), RotR (stack ! (n - 1))})"
    "\<exists>chain s'. GetVisitedNodes (heap (built [50, 30, 70, 20])) 3 [] = Some chain
         \<and> AVLmap_erase (Some 3) (built [50, 30, 70, 20]) = Some s'
         \<and> take (length (log (built [50, 30, 70, 20]))) (log s') = log (built [50, 30, 70, 20])
         \<and> examined (drop (length (log (built [50, 30, 70, 20]))) (log s')) = chain"
    by blast+
  then show ?thesis using e well_formed_built[of "[50, 30, 70, 20]"] by simp
qed


section \<open>The height field\<close>

text \<open>
  Claim C3, amended: inserting any list of keys into an empty map through \<open>operator[]\<close>
  returns normally, and afterwards the \<open>height\<close> field of every node in the store is the
  depth of the node, that is, the number of its proper ancestors, which is the length of
  the chain \<open>GetVisitedNodes\<close> collects for it (0 at the root).
\<close>

theorem stored_height_is_depth_after_insertions:
  "\<exists>s. insert_keys dflt ks AVLmap = Some s
       \<and> (\<forall>a n. heap s a = Some n \<longrightarrow>
             (\<exists>chain. GetVisitedNodes (heap s) a [] = Some chain
                \<and> height n = int (length chain)))"
proof -
  have e: "set_depths 0 (Leaf :: ('a, 'b) tree) = Leaf"
    "dom (heap (AVLmap :: ('a, 'b) state)) = set (addrs (Leaf :: ('a, 'b) tree))"
    "bst (Leaf :: ('a, 'b) tree)"
    by (simp_all add: AVLmap_def bst_def)
  from insert_keys_depths[OF repr_AVLmap e(3,1,2), of dflt ks]
  obtain s t where s: "insert_keys dflt ks AVLmap = Some s" "repr s t"
    "set_depths 0 t = t" "dom (heap s) = set (addrs t)" by blast
  have "\<forall>a n. heap s a = Some n \<longrightarrow>
             (\<exists>chain. GetVisitedNodes (heap s) a [] = Some chain
                \<and> height n = int (length chain))"
  proof (intro allI impI)
    fix a n assume h: "heap s a = Some n"
    then have "a \<in> set (addrs t)" using s(4) by (auto simp: dom_def)
    from height_is_depth[OF s(2,3) this] h
    show "\<exists>chain. GetVisitedNodes (heap s) a [] = Some chain \<and> height n = int (length chain)"
      by auto
  qed
  then show ?thesis using s(1) by blast
qed

theorem stored_height_is_depth_after_insertions_witness:
  "insert_keys (0::int) [10, 20, 30, 40::int] AVLmap \<noteq> None
   \<and> map_option (\<lambda>n. (key n, height n)) (heap (the (insert_keys (0::int) [10, 20, 30, 40::int] AVLmap)) 3)
       = Some (40, 2)
   \<and> GetVisitedNodes (heap (the (insert_keys (0::int) [10, 20, 30, 40::int] AVLmap))) 3 [] = Some [1, 2]
   \<and> GetSubtreeHeight (heap (the (insert_keys (0::int) [10, 20, 30, 40::int] AVLmap))) (Some 3) = Some 0
   \<and> (\<exists>s. insert_keys (0::int) [10, 20, 30, 40::int] AVLmap = Some s
         \<and> (\<exists>n chain. heap s 3 = Some n \<and> GetVisitedNodes (heap s) 3 [] = Some chain
                \<and> height n = int (length chain)))"
proof -
  have e: "insert_keys (0::int) [10, 20, 30, 40::int] AVLmap \<noteq> None"
    "map_option (\<lambda>n. (key n, height n)) (heap (the (insert_keys (0::int) [10, 20, 30, 40::int] AVLmap)) 3)
       = Some (40, 2)"
    "GetVisitedNodes (heap (the (insert_keys (0::int) [10, 20, 30, 40::int] AVLmap))) 3 [] = Some [1, 2]"
    "GetSubtreeHeight (heap (the (insert_keys (0::int) [10, 20, 30, 40::int] AVLmap))) (Some 3) = Some 0"
    by code_simp+
  from stored_height_is_depth_after_insertions[of "0::int" "[10, 20, 30, 40::int]"]
  obtain s where s: "insert_keys (0::int) [10, 20, 30, 40::int] AVLmap = Some s"
    "\<forall>a n. heap s a = Some n \<longrightarrow>
             (\<exists>chain. GetVisitedNodes (heap s) a [] = Some chain \<and> height n = int (length chain))"
    by blast
  obtain n where n: "heap s 3 = Some n" using e(2) s(1) by auto
  from s(2) n obtain chain where "GetVisitedNodes (heap s) 3 [] = Some chain"
    "height n = int (length chain)" by blast
  then have "\<exists>s. insert_keys (0::int) [10, 20, 30, 40::int] AVLmap = Some s
         \<and> (\<exists>n chain. heap s 3 = Some n \<and> GetVisitedNodes (heap s) 3 [] = Some chain
                \<and> height n = int (length chain))"
    using s(1) n by blast
  then show ?thesis using e by simp
qed

text \<open>
  The statement is about insertions only: \<open>erase\<close> does not reassign the field. After
  inserting 20, 10, 30, 40 and erasing 30, the node of 40 (address 3) has taken the place of
  its parent, directly below the root, and still carries the height 2.
\<close>

lemma erase_leaves_height_field:
  "map_option (\<lambda>s. (map_option (\<lambda>n. (key n, height n)) (heap s 3), GetVisitedNodes (heap s) 3 []))
     (erase_key 30 (built [20, 10, 30, 40])) = Some (Some (40, 2), Some [0])"
  by code_simp


end
